theory Spec2Isabelle
  imports Main "HOL-Library.Char_ord" "HOL-Library.List_Lexorder"
    "HOL-Library.Product_Lexorder" "HOL-Library.Multiset"
begin

section \<open>Strings as Python sees them\<close>

text \<open>
  Python strings are modelled as \<^typ>\<open>string\<close>, a \<^typ>\<open>char\<close> standing for a code point
  below 256. \<open>is_space\<close> is \<open>str.isspace\<close> (and the regular expression class \<open>\s\<close>)
  on that range.
\<close>

definition is_space :: "char \<Rightarrow> bool" where
  "is_space c = (of_char c \<in> {9, 10, 11, 12, 13, 28, 29, 30, 31, 32, 133, 160 :: nat})"

definition strip :: "string \<Rightarrow> string" where
  "strip s = rev (dropWhile is_space (rev (dropWhile is_space s)))"

text \<open>\<open>str.lower\<close> on code points below 256: the ASCII and the Latin-1 capitals.\<close>

definition lower_char :: "char \<Rightarrow> char" where
  "lower_char c =
     (let n = (of_char c :: nat)
      in if (65 \<le> n \<and> n \<le> 90) \<or> (192 \<le> n \<and> n \<le> 222 \<and> n \<noteq> 215) then char_of (n + 32) else c)"

definition lower :: "string \<Rightarrow> string" where
  "lower s = map lower_char s"

definition startswith :: "string \<Rightarrow> string \<Rightarrow> bool" where
  "startswith s p = (take (length p) s = p)"

definition endswith :: "string \<Rightarrow> string \<Rightarrow> bool" where
  "endswith s p = (length p \<le> length s \<and> drop (length s - length p) s = p)"

text \<open>The substring test \<open>sub in s\<close>.\<close>

fun contains :: "string \<Rightarrow> string \<Rightarrow> bool" where
  "contains sub [] = (sub = [])"
| "contains sub (c # cs) = (startswith (c # cs) sub \<or> contains sub cs)"

abbreviation dquote :: char where "dquote \<equiv> CHR 0x22"
abbreviation squote :: char where "squote \<equiv> CHR 0x27"

definition is_quote :: "char \<Rightarrow> bool" where
  "is_quote c = (c = dquote \<or> c = squote)"

text \<open>
  One match of the pattern \<open>(?:[^\s"']+|"[^"]*"|'[^']*')+\<close> attempted at the head of the
  input: the matched text and the rest. The mode is \<open>None\<close> between alternatives and
  \<open>Some q\<close> inside a span opened by the quote \<open>q\<close>; a quote starts a span only when its
  closing partner follows, otherwise the match stops before it, as it stops before white
  space. An empty first component means no match at this position.
\<close>

fun re_token :: "char option \<Rightarrow> string \<Rightarrow> string \<times> string" where
  "re_token None [] = ([], [])"
| "re_token None (c # cs) =
     (if is_space c then ([], c # cs)
      else if is_quote c then
        (if c \<in> set cs then (case re_token (Some c) cs of (m, r) \<Rightarrow> (c # m, r))
         else ([], c # cs))
      else (case re_token None cs of (m, r) \<Rightarrow> (c # m, r)))"
| "re_token (Some q) [] = ([], [])"
| "re_token (Some q) (c # cs) =
     (if c = q then (case re_token None cs of (m, r) \<Rightarrow> (c # m, r))
      else (case re_token (Some q) cs of (m, r) \<Rightarrow> (c # m, r)))"

lemma re_token_length: "re_token md s = (m, r) \<Longrightarrow> length m + length r = length s"
  by (induction md s arbitrary: m r rule: re_token.induct)
     (auto split: if_splits prod.splits)

text \<open>\<open>re.findall\<close>: the non-overlapping matches from left to right.\<close>

function re_findall :: "string \<Rightarrow> string list" where
  "re_findall [] = []"
| "re_findall (c # cs) =
     (case re_token None (c # cs) of
        (m, r) \<Rightarrow> if m = [] then re_findall cs else m # re_findall r)"
  by pat_completeness auto
termination
proof (relation "measure length")
  show "wf (measure length)" by simp
next
  fix c :: char and cs
  show "(cs, c # cs) \<in> measure length" by simp
next
  fix c :: char and cs m r
  assume a: "(m, r) = re_token None (c # cs)" "m \<noteq> []"
  then have "length m + length r = length (c # cs)"
    using re_token_length [of None "c # cs" m r] by simp
  with a show "(r, c # cs) \<in> measure length" by (cases m) auto
qed

definition extract_first_command :: "string \<Rightarrow> string" where
  "extract_first_command exec_line =
     (if exec_line = [] then []
      else case re_findall (strip exec_line) of
        [] \<Rightarrow> []
      | first # _ \<Rightarrow>
          if first \<noteq> [] \<and>
             ((hd first = dquote \<and> last first = dquote) \<or>
              (hd first = squote \<and> last first = squote))
          then butlast (tl first) else first)"

section \<open>Paths\<close>

text \<open>Splitting at a separator, as \<open>str.split(sep)\<close> does for a one-character separator.\<close>

fun split_on :: "char \<Rightarrow> string \<Rightarrow> string list" where
  "split_on sep [] = [[]]"
| "split_on sep (c # cs) =
     (if c = sep then [] # split_on sep cs
      else case split_on sep cs of
        [] \<Rightarrow> [[c]]
      | p # ps \<Rightarrow> (c # p) # ps)"

text \<open>
  \<open>Path(s).name\<close> on POSIX: the last component after empty and \<open>.\<close> components are dropped,
  the empty string when none is left.
\<close>

definition path_name :: "string \<Rightarrow> string" where
  "path_name s =
     (case filter (\<lambda>p. p \<noteq> [] \<and> p \<noteq> ''.'') (split_on CHR ''/'' s) of
        [] \<Rightarrow> []
      | ps \<Rightarrow> last ps)"

definition is_absolute :: "string \<Rightarrow> bool" where
  "is_absolute s = (s \<noteq> [] \<and> hd s = CHR ''/'')"

section \<open>The machine the tool runs on\<close>

text \<open>
  Everything the tool reads from and writes to its surroundings:
  \<^item> \<open>home\<close>: the home directory, a normalised absolute path;
  \<^item> \<open>files\<close>: the regular files, by their own paths, with their decoded text;
    \<open>links\<close>: the symbolic links, each with the path of the file it leads to;
    \<open>dirs\<close>: the directories;
  \<^item> \<open>on_path\<close>: the command names for which \<open>shutil.which\<close> finds an executable;
  \<^item> \<open>listdir\<close>: the names a directory enumerates, in enumeration order;
  \<^item> \<open>file_id\<close>: the identity (device and inode) of the file a path leads to;
  \<^item> \<open>desktop_entry\<close>: what \<open>configparser\<close> makes of the descriptor at a path: the
    message of the exception it raises, or the options of its \<open>Desktop Entry\<close> section
    (\<open>None\<close> when the section is absent or the file cannot be opened);
  \<^item> \<open>mkdir_error\<close>, \<open>read_error\<close>, \<open>write_error\<close>, \<open>move_error\<close>: the message of the
    \<open>OSError\<close> the operating system raises for that operation on that path, if any;
    \<open>write_partial\<close>, \<open>move_partial\<close>: what a write or a move that fails leaves in the
    file it was writing (\<open>None\<close> when it fails before it opens that file); all six stay
    as they are during a run;
  \<^item> \<open>trace\<close>: what the tool has printed and launched so far, oldest first.
\<close>

datatype event =
    Print string
  | PrintErr string
  | JsonReport string string
  | Spawn "string list"

record world =
  home :: string
  files :: "string \<rightharpoonup> string"
  links :: "string \<rightharpoonup> string"
  dirs :: "string set"
  on_path :: "string \<Rightarrow> bool"
  listdir :: "string \<Rightarrow> string list"
  file_id :: "string \<Rightarrow> nat"
  desktop_entry :: "string \<Rightarrow> string + (string \<rightharpoonup> string) option"
  mkdir_error :: "string \<Rightarrow> string option"
  read_error :: "string \<Rightarrow> string option"
  write_error :: "string \<Rightarrow> string option"
  move_error :: "string \<Rightarrow> string option"
  write_partial :: "string \<Rightarrow> string option"
  move_partial :: "string \<Rightarrow> string option"
  trace :: "event list"

text \<open>The path of the file that opening a path reaches: a symbolic link is followed.\<close>

definition resolve :: "world \<Rightarrow> string \<Rightarrow> string" where
  "resolve w p = (case links w p of None \<Rightarrow> p | Some t \<Rightarrow> t)"

definition path_exists :: "world \<Rightarrow> string \<Rightarrow> bool" where
  "path_exists w p = (files w (resolve w p) \<noteq> None \<or> p \<in> dirs w)"

definition which_exists :: "world \<Rightarrow> string \<Rightarrow> bool" where
  "which_exists w cmd =
     (if cmd = [] then False
      else if is_absolute cmd then path_exists w cmd
      else on_path w cmd)"

section \<open>Health classification\<close>

definition WRAPPER_CMDS :: "string set" where
  "WRAPPER_CMDS = {''env'', ''bash'', ''sh'', ''fish'', ''zsh'', ''/usr/bin/env'', ''flatpak'',
     ''snap'', ''python'', ''python3'', ''perl'', ''ruby'', ''java'', ''podman'', ''docker''}"

definition looks_broken :: "world \<Rightarrow> string \<Rightarrow> string \<Rightarrow> bool \<times> string" where
  "looks_broken w exec_line tryexec =
     (if tryexec \<noteq> [] \<and> \<not> which_exists w tryexec
      then (True, ''TryExec not found: '' @ tryexec)
      else let cmd = extract_first_command exec_line in
        if cmd = [] then (True, ''Empty Exec'')
        else if path_name cmd \<in> WRAPPER_CMDS \<or> cmd \<in> WRAPPER_CMDS then
          (if \<not> which_exists w cmd then (True, ''Wrapper not found in PATH: '' @ cmd)
           else (False, []))
        else if \<not> which_exists w cmd then (True, ''Executable not found: '' @ cmd)
        else (False, []))"

definition detect_provider :: "world \<Rightarrow> string \<Rightarrow> string \<Rightarrow> string" where
  "detect_provider w path exec_line =
     (let low = lower path @ '' '' @ lower exec_line
      in if contains ''flatpak'' low \<or> contains ''/var/lib/flatpak'' low then ''flatpak''
         else if contains ''snap'' low \<or> contains ''/var/lib/snapd'' low then ''snap''
         else if which_exists w (extract_first_command exec_line) then ''native''
         else ''other'')"

section \<open>Duplicate hiding: which entry to keep\<close>

definition provider_rank :: "string \<Rightarrow> string \<Rightarrow> nat" where
  "provider_rank provider prefer =
     (let pref_maps =
        [(''native'', [(''native'', 0), (''flatpak'', 1), (''snap'', 2), (''other'', 3)]),
         (''flatpak'', [(''flatpak'', 0), (''native'', 1), (''snap'', 2), (''other'', 3)]),
         (''snap'', [(''snap'', 0), (''native'', 1), (''flatpak'', 2), (''other'', 3)])];
        m = (case map_of pref_maps prefer of
               Some m \<Rightarrow> m
             | None \<Rightarrow> [(''native'', 0), (''flatpak'', 1), (''snap'', 2), (''other'', 3)])
      in case map_of m provider of Some r \<Rightarrow> r | None \<Rightarrow> 3)"

text \<open>
  \<open>min(xs, key=key)\<close>: the first element whose key is least; \<open>None\<close> stands for the
  \<open>ValueError\<close> on an empty sequence.
\<close>

fun py_min :: "('a \<Rightarrow> 'k::linorder) \<Rightarrow> 'a list \<Rightarrow> 'a option" where
  "py_min key [] = None"
| "py_min key (x # xs) = Some (foldl (\<lambda>best y. if key y < key best then y else best) x xs)"

section \<open>Entries\<close>

record entry =
  path :: string
  scope :: string
  name :: string
  exec_line :: string
  tryexec :: string
  mimetypes :: "string list"
  hidden :: bool
  nodisplay :: bool
  entry_type :: string
  first_cmd :: string
  provider :: string
  broken :: bool
  reason :: string

text \<open>
  The key of the name strategy, line 321 of the source: provider rank, then \<open>system\<close>
  before \<open>user\<close>, then the path. Tuples and strings compare lexicographically, characters
  by code point.
\<close>

definition keep_key :: "string \<Rightarrow> entry \<Rightarrow> nat \<times> nat \<times> string" where
  "keep_key pref x =
     (provider_rank (provider x) pref, if scope x = ''system'' then 0 else 1, path x)"

definition keep_by_name :: "string \<Rightarrow> entry list \<Rightarrow> entry option" where
  "keep_by_name pref grp = py_min (keep_key pref) grp"

section \<open>Reading one descriptor\<close>

text \<open>
  \<open>s.getboolean(option, fallback=False)\<close> on the value found for the option: the fallback
  when the option is absent, a \<open>ValueError\<close> when the value is not a boolean word.
\<close>

definition getboolean :: "string option \<Rightarrow> string + bool" where
  "getboolean v =
     (case v of
        None \<Rightarrow> Inr False
      | Some value \<Rightarrow>
          if lower value \<in> {''1'', ''yes'', ''true'', ''on''} then Inr True
          else if lower value \<in> {''0'', ''no'', ''false'', ''off''} then Inr False
          else Inl (''Not a boolean: '' @ value))"

definition scope_of :: "world \<Rightarrow> string \<Rightarrow> string" where
  "scope_of w p = (if startswith p (home w) then ''user'' else ''system'')"

definition get_or_empty :: "(string \<rightharpoonup> string) \<Rightarrow> string \<Rightarrow> string" where
  "get_or_empty s k = (case s k of None \<Rightarrow> [] | Some v \<Rightarrow> v)"

text \<open>
  The body of the \<open>try\<close> of \<open>read_desktop\<close>: \<open>Inl e\<close> is an exception with message \<open>e\<close>,
  \<open>Inr None\<close> the early \<open>return None\<close>.
\<close>

definition parse_desktop :: "world \<Rightarrow> string \<Rightarrow> string + entry option" where
  "parse_desktop w p =
     (case desktop_entry w p of
        Inl e \<Rightarrow> Inl e
      | Inr None \<Rightarrow> Inr None
      | Inr (Some s) \<Rightarrow>
          let etype = (case s ''Type'' of None \<Rightarrow> ''Application'' | Some v \<Rightarrow> v)
          in if lower etype \<noteq> ''application'' then Inr None
             else
               let nm = strip (get_or_empty s ''Name'');
                   ex = strip (get_or_empty s ''Exec'');
                   tx = strip (get_or_empty s ''TryExec'')
               in case getboolean (s ''Hidden'') of
                    Inl e \<Rightarrow> Inl e
                  | Inr hid \<Rightarrow>
                      (case getboolean (s ''NoDisplay'') of
                         Inl e \<Rightarrow> Inl e
                       | Inr nodisp \<Rightarrow>
                           let mime_raw = strip (get_or_empty s ''MimeType'');
                               mts = filter (\<lambda>m. m \<noteq> []) (split_on CHR '';'' mime_raw)
                           in if mts = [] then Inr None
                              else
                                let (brk, rsn) = looks_broken w ex tx
                                in Inr (Some \<lparr>
                                     path = p,
                                     scope = scope_of w p,
                                     name = nm,
                                     exec_line = ex,
                                     tryexec = tx,
                                     mimetypes = mts,
                                     hidden = hid,
                                     nodisplay = nodisp,
                                     entry_type = etype,
                                     first_cmd = extract_first_command ex,
                                     provider = detect_provider w p ex,
                                     broken = brk,
                                     reason = rsn \<rparr>)))"

definition read_desktop :: "world \<Rightarrow> string \<Rightarrow> entry option" where
  "read_desktop w p =
     (case parse_desktop w p of
        Inr r \<Rightarrow> r
      | Inl e \<Rightarrow> Some \<lparr>
          path = p,
          scope = scope_of w p,
          name = [],
          exec_line = [],
          tryexec = [],
          mimetypes = [],
          hidden = False,
          nodisplay = False,
          entry_type = ''Application'',
          first_cmd = [],
          provider = ''other'',
          broken = True,
          reason = ''Parse error: '' @ e \<rparr>)"

section \<open>Locating the descriptors\<close>

definition USER_DIRS :: "world \<Rightarrow> string list" where
  "USER_DIRS w =
     [home w @ ''/.local/share/applications'',
      home w @ ''/.local/share/flatpak/exports/share/applications'']"

definition SYSTEM_DIRS :: "string list" where
  "SYSTEM_DIRS =
     [''/usr/share/applications'',
      ''/var/lib/flatpak/exports/share/applications'',
      ''/var/lib/snapd/desktop/applications'']"

text \<open>\<open>Path(d).glob('*.desktop')\<close>: the enumerated names with that ending, under \<open>d\<close>.\<close>

definition glob_desktop :: "world \<Rightarrow> string \<Rightarrow> string list" where
  "glob_desktop w d =
     map (\<lambda>n. d @ ''/'' @ n) (filter (\<lambda>n. endswith n ''.desktop'') (listdir w d))"

text \<open>The inner loop of \<open>find_desktop_files\<close>, on the pair of \<open>paths\<close> and \<open>seen\<close>.\<close>

fun add_unseen :: "string list \<Rightarrow> string list \<times> string set \<Rightarrow> string list \<times> string set" where
  "add_unseen [] (paths, seen) = (paths, seen)"
| "add_unseen (f # fs) (paths, seen) =
     (if f \<notin> seen then add_unseen fs (paths @ [f], insert f seen)
      else add_unseen fs (paths, seen))"

fun scan_dirs :: "world \<Rightarrow> string list \<Rightarrow> string list \<times> string set \<Rightarrow> string list \<times> string set" where
  "scan_dirs w [] acc = acc"
| "scan_dirs w (d # ds) acc =
     (if path_exists w d then scan_dirs w ds (add_unseen (glob_desktop w d) acc)
      else scan_dirs w ds acc)"

definition find_desktop_files :: "world \<Rightarrow> string list" where
  "find_desktop_files w = fst (scan_dirs w (USER_DIRS w @ SYSTEM_DIRS) ([], {}))"

fun keep_candidates :: "world \<Rightarrow> string list \<Rightarrow> entry list" where
  "keep_candidates w [] = []"
| "keep_candidates w (p # ps) =
     (case read_desktop w p of
        None \<Rightarrow> keep_candidates w ps
      | Some e \<Rightarrow> if mimetypes e \<noteq> [] then e # keep_candidates w ps else keep_candidates w ps)"

definition load_entries :: "world \<Rightarrow> entry list" where
  "load_entries w = keep_candidates w (find_desktop_files w)"

section \<open>File operations\<close>

text \<open>
  An operation takes the world and returns its result with the world it leaves behind;
  \<open>Inl m\<close> is an exception with message \<open>m\<close> leaving the function.
\<close>

definition emit :: "event \<Rightarrow> world \<Rightarrow> world" where
  "emit e w = w\<lparr>trace := trace w @ [e]\<rparr>"

text \<open>The path itself and its ancestors: the prefixes that end before a separator.\<close>

definition dir_chain :: "string \<Rightarrow> string list" where
  "dir_chain d =
     map (\<lambda>k. take k d)
       (filter (\<lambda>k. k = length d \<or> d ! k = CHR ''/'') [1..<Suc (length d)])"

text \<open>\<open>Path(d).mkdir(parents=True, exist_ok=True)\<close>.\<close>

definition mkdir_parents :: "string \<Rightarrow> world \<Rightarrow> (string + unit) \<times> world" where
  "mkdir_parents d w =
     (case mkdir_error w d of
        Some m \<Rightarrow> (Inl m, w)
      | None \<Rightarrow> (Inr (), w\<lparr>dirs := dirs w \<union> set (dir_chain d)\<rparr>))"

definition read_text :: "string \<Rightarrow> world \<Rightarrow> string + string" where
  "read_text p w =
     (case read_error w p of
        Some m \<Rightarrow> Inl m
      | None \<Rightarrow>
          (case files w (resolve w p) of
             None \<Rightarrow> Inl (''[Errno 2] No such file or directory: '' @ p)
           | Some c \<Rightarrow> Inr c))"

text \<open>Opening a path for writing and storing a text: the file the path leads to gets it.\<close>

definition put_file :: "string \<Rightarrow> string \<Rightarrow> world \<Rightarrow> world" where
  "put_file p text w = w\<lparr>files := (files w)(resolve w p \<mapsto> text)\<rparr>"

text \<open>
  \<open>Path(p).write_text(text)\<close>. A write that fails after the file was opened leaves a part
  of the text in it.
\<close>

definition write_text :: "string \<Rightarrow> string \<Rightarrow> world \<Rightarrow> (string + unit) \<times> world" where
  "write_text p text w =
     (case write_error w p of
        Some m \<Rightarrow>
          (Inl m, case write_partial w p of None \<Rightarrow> w | Some part \<Rightarrow> put_file p part w)
      | None \<Rightarrow> (Inr (), put_file p text w))"

text \<open>
  \<open>shutil.move(src, dst)\<close> of an existing path. A move that succeeds renames the path
  itself, be it a link, a file or a directory, and replaces what was at the destination.
  A move that fails leaves the source where it was; when renaming was not possible and the
  copy that is tried instead had begun, a part of the source is left in the file the
  destination leads to.
\<close>

definition move :: "string \<Rightarrow> string \<Rightarrow> world \<Rightarrow> (string + unit) \<times> world" where
  "move src dst w =
     (case move_error w src of
        Some m \<Rightarrow>
          (Inl m, case move_partial w src of None \<Rightarrow> w | Some part \<Rightarrow> put_file dst part w)
      | None \<Rightarrow>
          (Inr (),
           case links w src of
             Some t \<Rightarrow>
               w\<lparr>links := (links w)(src := None, dst \<mapsto> t), files := (files w)(dst := None)\<rparr>
           | None \<Rightarrow>
               (case files w src of
                  Some c \<Rightarrow>
                    w\<lparr>files := (files w)(src := None, dst \<mapsto> c),
                      links := (links w)(dst := None)\<rparr>
                | None \<Rightarrow> w\<lparr>dirs := insert dst (dirs w - {src})\<rparr>)))"

text \<open>\<open>d / n\<close> for a directory \<open>d\<close> and a file name \<open>n\<close>.\<close>

definition path_join :: "string \<Rightarrow> string \<Rightarrow> string" where
  "path_join d n = (if n = [] then d else d @ ''/'' @ n)"

text \<open>
  \<open>str.splitlines\<close>: the line boundaries below code point 256 are LF, VT, FF, CR, CR LF,
  FS, GS, RS and NEL; no empty last line after a final boundary.
\<close>

definition is_linebreak :: "char \<Rightarrow> bool" where
  "is_linebreak c = (of_char c \<in> {10, 11, 12, 13, 28, 29, 30, 133 :: nat})"

fun splitlines_from :: "string \<Rightarrow> string \<Rightarrow> string list" where
  "splitlines_from cur [] = (if cur = [] then [] else [rev cur])"
| "splitlines_from cur [c] =
     (if is_linebreak c then [rev cur] else [rev (c # cur)])"
| "splitlines_from cur (c # d # cs) =
     (if c = CHR 0x0D \<and> d = CHR 0x0A then rev cur # splitlines_from [] cs
      else if is_linebreak c then rev cur # splitlines_from [] (d # cs)
      else splitlines_from (c # cur) (d # cs))"

definition splitlines :: "string \<Rightarrow> string list" where
  "splitlines s = splitlines_from [] s"

text \<open>\<open>sep.join(xs)\<close>.\<close>

fun join :: "string \<Rightarrow> string list \<Rightarrow> string" where
  "join sep [] = []"
| "join sep [x] = x"
| "join sep (x # y # ys) = x @ sep @ join sep (y # ys)"

section \<open>Hiding an entry\<close>

definition ensure_user_dir :: "world \<Rightarrow> (string + string) \<times> world" where
  "ensure_user_dir w =
     (let ud = home w @ ''/.local/share/applications''
      in case mkdir_parents ud w of
           (Inl m, w') \<Rightarrow> (Inl m, w')
         | (Inr _, w') \<Rightarrow> (Inr ud, w'))"

text \<open>
  The loop of \<open>set_nodisplay_override\<close> over the lines: the first line that starts with
  \<open>NoDisplay=\<close> is replaced; the result says whether one was.
\<close>

fun replace_nodisplay :: "string list \<Rightarrow> string list \<times> bool" where
  "replace_nodisplay [] = ([], False)"
| "replace_nodisplay (l # ls) =
     (if startswith l ''NoDisplay='' then (''NoDisplay=true'' # ls, True)
      else case replace_nodisplay ls of (ls', changed) \<Rightarrow> (l # ls', changed))"

definition force_nodisplay :: "string list \<Rightarrow> string list" where
  "force_nodisplay lines =
     (case replace_nodisplay lines of
        (lines', changed) \<Rightarrow> if \<not> changed then lines' @ [''NoDisplay=true''] else lines')"

definition set_nodisplay_override :: "string \<Rightarrow> world \<Rightarrow> (string + string) \<times> world" where
  "set_nodisplay_override system_path w =
     (case ensure_user_dir w of
        (Inl m, w1) \<Rightarrow> (Inl m, w1)
      | (Inr ud, w1) \<Rightarrow>
          let dst = path_join ud (path_name system_path)
          in case read_text system_path w1 of
               Inl e \<Rightarrow>
                 (Inr system_path,
                  emit (PrintErr (''Failed to override '' @ system_path @ '': '' @ e)) w1)
             | Inr content \<Rightarrow>
                 let lines = force_nodisplay (splitlines content)
                 in case write_text dst (join [CHR 0x0A] lines @ [CHR 0x0A]) w1 of
                      (Inl e, w2) \<Rightarrow>
                        (Inr system_path,
                         emit (PrintErr (''Failed to override '' @ system_path @ '': '' @ e)) w2)
                    | (Inr _, w2) \<Rightarrow> (Inr dst, w2))"

definition disable_user_file :: "string \<Rightarrow> world \<Rightarrow> (string + string) \<times> world" where
  "disable_user_file user_path w =
     (let disabled_dir = home w @ ''/.local/share/applications/.disabled''
      in case mkdir_parents disabled_dir w of
           (Inl m, w1) \<Rightarrow> (Inl m, w1)
         | (Inr _, w1) \<Rightarrow>
             let dst = path_join disabled_dir (path_name user_path)
             in if path_exists w1 user_path then
                  (case move user_path dst w1 of
                     (Inl e, w2) \<Rightarrow>
                       (Inr user_path,
                        emit (PrintErr (''Failed to move '' @ user_path @ '': '' @ e)) w2)
                   | (Inr _, w2) \<Rightarrow> (Inr dst, w2))
                else (Inr dst, w1))"

section \<open>The association file: reading and writing\<close>

text \<open>
  \<open>configparser.ConfigParser(interpolation=None, strict=False, delimiters=('='))\<close> as the
  standard library implements it: a configuration is the options of the \<open>DEFAULT\<close> section
  and the other sections in file order, every section with its options in file order.
\<close>

type_synonym options = "(string \<times> string) list"

record config =
  defaults :: options
  sections :: "(string \<times> options) list"

text \<open>Assignment to a key of an insertion-ordered dictionary.\<close>

fun dict_set :: "'k \<Rightarrow> 'v \<Rightarrow> ('k \<times> 'v) list \<Rightarrow> ('k \<times> 'v) list" where
  "dict_set k v [] = [(k, v)]"
| "dict_set k v ((k', v') # d) = (if k' = k then (k, v) # d else (k', v') # dict_set k v d)"

definition rstrip :: "string \<Rightarrow> string" where
  "rstrip s = rev (dropWhile is_space (rev s))"

text \<open>
  A file opened for reading in text mode: a carriage return, alone or followed by a line
  feed, is read as a line feed.
\<close>

fun universal_newlines :: "string \<Rightarrow> string" where
  "universal_newlines [] = []"
| "universal_newlines [c] = [if c = CHR 0x0D then CHR 0x0A else c]"
| "universal_newlines (c # d # cs) =
     (if c = CHR 0x0D \<and> d = CHR 0x0A then CHR 0x0A # universal_newlines cs
      else if c = CHR 0x0D then CHR 0x0A # universal_newlines (d # cs)
      else c # universal_newlines (d # cs))"

text \<open>The lines such a file iterates over, without their terminators.\<close>

definition file_lines :: "string \<Rightarrow> string list" where
  "file_lines s =
     (let ls = split_on CHR 0x0A (universal_newlines s)
      in if last ls = [] then butlast ls else ls)"

text \<open>
  The state of \<open>RawConfigParser._read\<close>: the values are lists of lines until the end,
  \<open>cursect\<close> is the name of the current section, \<open>bad_lines\<close> counts the lines that make
  the reader raise \<open>ParsingError\<close> once the file is read.
\<close>

record reader =
  r_defaults :: "(string \<times> string list) list"
  r_sections :: "(string \<times> (string \<times> string list) list) list"
  cursect :: "string option"
  optname :: "string option"
  indent_level :: nat
  bad_lines :: nat

definition in_section ::
  "string \<Rightarrow> ((string \<times> string list) list \<Rightarrow> (string \<times> string list) list) \<Rightarrow> reader \<Rightarrow> reader" where
  "in_section sect f rd =
     (if sect = ''DEFAULT'' then rd\<lparr>r_defaults := f (r_defaults rd)\<rparr>
      else rd\<lparr>r_sections :=
             map (\<lambda>(n, opts). if n = sect then (n, f opts) else (n, opts)) (r_sections rd)\<rparr>)"

text \<open>\<open>cursect[optname].append(v)\<close>.\<close>

definition append_value :: "string \<Rightarrow> reader \<Rightarrow> reader" where
  "append_value v rd =
     (case (cursect rd, optname rd) of
        (Some sect, Some opt) \<Rightarrow>
          in_section sect (map (\<lambda>(k, ls). if k = opt then (k, ls @ [v]) else (k, ls))) rd
      | _ \<Rightarrow> rd)"

text \<open>
  The section pattern \<open>\[(?P<header>.+)\]\<close> matched at the start of a stripped line: the
  header runs from the opening bracket to the last closing one and is not empty.
\<close>

definition section_header :: "string \<Rightarrow> string option" where
  "section_header v =
     (case v of
        [] \<Rightarrow> None
      | c # rest \<Rightarrow>
          if c = CHR ''['' \<and> CHR '']'' \<in> set rest then
            (let h = rev (tl (dropWhile (\<lambda>x. x \<noteq> CHR '']'') (rev rest)))
             in if h \<noteq> [] then Some h else None)
          else None)"

text \<open>
  The option pattern for the delimiter \<open>=\<close> on a stripped line: the option is what
  precedes the first \<open>=\<close> without the white space before it, the value what follows
  it; no match without a \<open>=\<close>.
\<close>

definition option_line :: "string \<Rightarrow> (string \<times> string) option" where
  "option_line v =
     (if CHR ''='' \<in> set v
      then Some (rstrip (takeWhile (\<lambda>x. x \<noteq> CHR ''='') v),
                 tl (dropWhile (\<lambda>x. x \<noteq> CHR ''='') v))
      else None)"

definition truthy :: "string option \<Rightarrow> bool" where
  "truthy v = (case v of None \<Rightarrow> False | Some s \<Rightarrow> s \<noteq> [])"

definition read_line :: "string \<Rightarrow> reader \<Rightarrow> string + reader" where
  "read_line line rd =
     (let stripped = strip line;
          is_comment = (startswith stripped ''#'' \<or> startswith stripped '';'');
          v = (if is_comment then [] else stripped)
      in if v = [] then
           (if \<not> is_comment \<and> cursect rd \<noteq> None \<and> truthy (optname rd)
            then Inr (append_value [] rd) else Inr rd)
         else
           let cur_indent_level = length (takeWhile is_space line)
           in if cursect rd \<noteq> None \<and> truthy (optname rd) \<and> cur_indent_level > indent_level rd
              then Inr (append_value v rd)
              else
                let rd1 = rd\<lparr>indent_level := cur_indent_level\<rparr>
                in case section_header v of
                     Some sectname \<Rightarrow>
                       if sectname \<in> set (map fst (r_sections rd1)) \<or> sectname = ''DEFAULT''
                       then Inr (rd1\<lparr>cursect := Some sectname, optname := None\<rparr>)
                       else Inr (rd1\<lparr>r_sections := r_sections rd1 @ [(sectname, [])],
                                   cursect := Some sectname, optname := None\<rparr>)
                   | None \<Rightarrow>
                       (case cursect rd1 of
                          None \<Rightarrow> Inl ''MissingSectionHeaderError''
                        | Some sect \<Rightarrow>
                            (case option_line v of
                               None \<Rightarrow> Inr (rd1\<lparr>bad_lines := Suc (bad_lines rd1)\<rparr>)
                             | Some (opt, optval) \<Rightarrow>
                                 let rd2 = (if opt = [] then rd1\<lparr>bad_lines := Suc (bad_lines rd1)\<rparr>
                                            else rd1);
                                     nm = lower (rstrip opt)
                                 in Inr (in_section sect (dict_set nm [strip optval]) rd2
                                           \<lparr>optname := Some nm\<rparr>))))"

fun read_lines :: "string list \<Rightarrow> reader \<Rightarrow> string + reader" where
  "read_lines [] rd = Inr rd"
| "read_lines (l # ls) rd =
     (case read_line l rd of Inl e \<Rightarrow> Inl e | Inr rd' \<Rightarrow> read_lines ls rd')"

definition join_value :: "string list \<Rightarrow> string" where
  "join_value ls = rstrip (join [CHR 0x0A] ls)"

text \<open>\<open>cfg.read_file(f)\<close> on a fresh parser, \<open>f\<close> holding the given text.\<close>

definition cfg_read :: "string \<Rightarrow> string + config" where
  "cfg_read content =
     (case read_lines (file_lines content)
             \<lparr>r_defaults = [], r_sections = [], cursect = None, optname = None,
              indent_level = 0, bad_lines = 0\<rparr> of
        Inl e \<Rightarrow> Inl e
      | Inr rd \<Rightarrow>
          if bad_lines rd > 0 then Inl ''ParsingError''
          else Inr \<lparr>
            defaults = map (\<lambda>(k, ls). (k, join_value ls)) (r_defaults rd),
            sections =
              map (\<lambda>(n, opts). (n, map (\<lambda>(k, ls). (k, join_value ls)) opts)) (r_sections rd) \<rparr>)"

definition write_section :: "string \<Rightarrow> options \<Rightarrow> string" where
  "write_section section_name section_items =
     ''['' @ section_name @ '']'' @ [CHR 0x0A] @
     concat (map (\<lambda>(k, v).
        k @ '' = '' @ concat (map (\<lambda>c. if c = CHR 0x0A then [CHR 0x0A, CHR 0x09] else [c]) v)
          @ [CHR 0x0A]) section_items) @
     [CHR 0x0A]"

text \<open>The text \<open>cfg.write(f)\<close> writes.\<close>

definition cfg_write :: "config \<Rightarrow> string" where
  "cfg_write cfg =
     (if defaults cfg \<noteq> [] then write_section ''DEFAULT'' (defaults cfg) else []) @
     concat (map (\<lambda>(n, opts). write_section n opts) (sections cfg))"

section \<open>The association file: cleaning\<close>

text \<open>
  \<open>cfg[section].keys()\<close>: the options of the section, then those of \<open>DEFAULT\<close> it does not
  have. \<open>cfg[section][key]\<close> looks in the section, then in \<open>DEFAULT\<close>; \<open>None\<close> is the
  \<open>KeyError\<close>. Options are stored under the name the parser gave them, which
  \<open>optionxform\<close> leaves as it is.
\<close>

definition cfg_keys :: "config \<Rightarrow> string \<Rightarrow> string list" where
  "cfg_keys cfg sect =
     (case map_of (sections cfg) sect of
        None \<Rightarrow> []
      | Some opts \<Rightarrow>
          map fst opts @ filter (\<lambda>k. k \<notin> set (map fst opts)) (map fst (defaults cfg)))"

definition cfg_get :: "config \<Rightarrow> string \<Rightarrow> string \<Rightarrow> string option" where
  "cfg_get cfg sect k =
     (case map_of (sections cfg) sect of
        None \<Rightarrow> None
      | Some opts \<Rightarrow>
          (case map_of opts k of Some v \<Rightarrow> Some v | None \<Rightarrow> map_of (defaults cfg) k))"

definition cfg_set :: "config \<Rightarrow> string \<Rightarrow> string \<Rightarrow> string \<Rightarrow> config" where
  "cfg_set cfg sect k v =
     cfg\<lparr>sections :=
           map (\<lambda>(n, opts). if n = sect then (n, dict_set k v opts) else (n, opts))
             (sections cfg)\<rparr>"

text \<open>
  The loop over the items of one value, lines 236 to 244, on \<open>new\<close>, \<open>seen\<close> and the two
  counters.
\<close>

fun clean_items ::
  "string list \<Rightarrow> string list \<Rightarrow> string list \<times> string set \<times> nat \<times> nat
     \<Rightarrow> string list \<times> string set \<times> nat \<times> nat" where
  "clean_items existing_desktops [] st = st"
| "clean_items existing_desktops (it # its) (new, seen, removed_dup, removed_missing) =
     (if it \<notin> set existing_desktops
      then clean_items existing_desktops its (new, seen, removed_dup, Suc removed_missing)
      else if it \<in> seen
      then clean_items existing_desktops its (new, seen, Suc removed_dup, removed_missing)
      else clean_items existing_desktops its (new @ [it], insert it seen, removed_dup, removed_missing))"

text \<open>One value: the new value and the counters afterwards.\<close>

definition clean_value :: "string list \<Rightarrow> string \<Rightarrow> nat \<times> nat \<Rightarrow> string \<times> nat \<times> nat" where
  "clean_value existing_desktops val counts =
     (let items = filter (\<lambda>x. x \<noteq> []) (split_on CHR '';'' val)
      in case clean_items existing_desktops items ([], {}, fst counts, snd counts) of
           (new, seen, removed_dup, removed_missing) \<Rightarrow>
             (join '';'' new @ (if new \<noteq> [] then '';'' else []), removed_dup, removed_missing))"

text \<open>
  The loop over the keys of one section, on the configuration, \<open>changed\<close> and the two
  counters.
\<close>

fun clean_keys ::
  "string list \<Rightarrow> string \<Rightarrow> string list \<Rightarrow> config \<times> bool \<times> nat \<times> nat
     \<Rightarrow> string + config \<times> bool \<times> nat \<times> nat" where
  "clean_keys existing_desktops sect [] st = Inr st"
| "clean_keys existing_desktops sect (k # ks) (cfg, changed, removed_dup, removed_missing) =
     (case cfg_get cfg sect k of
        None \<Rightarrow> Inl ''KeyError''
      | Some val \<Rightarrow>
          (case clean_value existing_desktops val (removed_dup, removed_missing) of
             (new_val, d, m) \<Rightarrow>
               if new_val \<noteq> val
               then clean_keys existing_desktops sect ks (cfg_set cfg sect k new_val, True, d, m)
               else clean_keys existing_desktops sect ks (cfg, changed, d, m)))"

fun clean_sections ::
  "string list \<Rightarrow> string list \<Rightarrow> config \<times> bool \<times> nat \<times> nat
     \<Rightarrow> string + config \<times> bool \<times> nat \<times> nat" where
  "clean_sections existing_desktops [] st = Inr st"
| "clean_sections existing_desktops (sect # sects) (cfg, changed, removed_dup, removed_missing) =
     (if sect \<in> set (map fst (sections cfg)) then
        (case clean_keys existing_desktops sect (cfg_keys cfg sect)
                (cfg, changed, removed_dup, removed_missing) of
           Inl e \<Rightarrow> Inl e
         | Inr st \<Rightarrow> clean_sections existing_desktops sects st)
      else clean_sections existing_desktops sects (cfg, changed, removed_dup, removed_missing))"

definition clean_mimeapps :: "string \<Rightarrow> string list \<Rightarrow> world \<Rightarrow> (string + nat \<times> nat) \<times> world" where
  "clean_mimeapps p existing_desktops w =
     (if \<not> path_exists w p then (Inr (0, 0), w)
      else case read_text p w of
        Inl e \<Rightarrow> (Inl e, w)
      | Inr content \<Rightarrow>
          (case cfg_read content of
             Inl e \<Rightarrow> (Inl e, w)
           | Inr cfg \<Rightarrow>
               (case clean_sections existing_desktops
                       [''Added Associations'', ''Default Applications''] (cfg, False, 0, 0) of
                  Inl e \<Rightarrow> (Inl e, w)
                | Inr (cfg', changed, removed_dup, removed_missing) \<Rightarrow>
                    if changed then
                      (case write_text p (cfg_write cfg') w of
                         (Inl e, w') \<Rightarrow> (Inl e, w')
                       | (Inr _, w') \<Rightarrow> (Inr (removed_dup, removed_missing), w'))
                    else (Inr (removed_dup, removed_missing), w))))"

section \<open>Grouping the entries\<close>

text \<open>\<open>d[k].append(x)\<close> on a \<open>defaultdict(list)\<close>, which keeps its keys in insertion order.\<close>

fun dd_append :: "'k \<Rightarrow> 'a \<Rightarrow> ('k \<times> 'a list) list \<Rightarrow> ('k \<times> 'a list) list" where
  "dd_append k x [] = [(k, [x])]"
| "dd_append k x ((k', g) # d) =
     (if k' = k then (k', g @ [x]) # d else (k', g) # dd_append k x d)"

definition group_by :: "('a \<Rightarrow> 'k) \<Rightarrow> 'a list \<Rightarrow> ('k \<times> 'a list) list" where
  "group_by key xs = foldl (\<lambda>d x. dd_append (key x) x d) [] xs"

definition name_key :: "entry \<Rightarrow> string" where
  "name_key e = lower (strip (name e))"

definition name_cmd_key :: "entry \<Rightarrow> string \<times> string" where
  "name_cmd_key e = (lower (strip (name e)), lower (strip (first_cmd e)))"

definition is_dup_group :: "entry list \<Rightarrow> bool" where
  "is_dup_group g = (length g > 1 \<and> name (hd g) \<noteq> [])"

definition dup_name_groups :: "entry list \<Rightarrow> entry list list" where
  "dup_name_groups entries = filter is_dup_group (map snd (group_by name_key entries))"

definition dup_name_cmd_groups :: "entry list \<Rightarrow> entry list list" where
  "dup_name_cmd_groups entries = filter is_dup_group (map snd (group_by name_cmd_key entries))"

definition broken_entries :: "entry list \<Rightarrow> entry list" where
  "broken_entries entries = filter (\<lambda>e. broken e \<and> \<not> hidden e) entries"

section \<open>Reports\<close>

text \<open>\<open>str(n)\<close> for a natural number.\<close>

fun str_nat :: "nat \<Rightarrow> string" where
  "str_nat n =
     (if n < 10 then [char_of (48 + n)]
      else str_nat (n div 10) @ [char_of (48 + n mod 10)])"

declare str_nat.simps [simp del]

definition entry_line :: "entry \<Rightarrow> string" where
  "entry_line e = ''      ['' @ provider e @ ''/'' @ scope e @ ''] '' @ path e"

definition scan_report :: "entry list \<Rightarrow> string list" where
  "scan_report entries =
     [''Total Open-With candidates: '' @ str_nat (length entries),
      ''Likely broken entries: '' @ str_nat (length (broken_entries entries))] @
     map (\<lambda>e. ''  - ['' @ scope e @ ''] '' @ (if name e \<noteq> [] then name e else ''(no name)'')
            @ '' -> '' @ reason e @ '' ('' @ path e @ '')'')
       (broken_entries entries) @
     [CHR 0x0A # ''Duplicate groups by NAME: '' @ str_nat (length (dup_name_groups entries))] @
     concat (map (\<lambda>g.
        (''  - '' @ [squote] @ name (hd g) @ [squote] @ ''  x'' @ str_nat (length g)
           @ ''  providers=['' @ join '', '' (sort (remdups (map provider g))) @ '']'')
        # map entry_line g) (dup_name_groups entries)) @
     [CHR 0x0A # ''Duplicate groups by NAME+CMD: ''
        @ str_nat (length (dup_name_cmd_groups entries))] @
     concat (map (\<lambda>g.
        (''  - '' @ [squote] @ name (hd g) @ [squote] @ '' via '' @ [squote] @ first_cmd (hd g)
           @ [squote] @ '' x'' @ str_nat (length g))
        # map entry_line g) (dup_name_cmd_groups entries))"

text \<open>
  The dictionary handed to \<open>json.dumps\<close>; an entry stands for its \<open>asdict\<close>, and
  \<open>broken_list\<close> for the key \<open>broken\<close>.
\<close>

record payload =
  total_candidates :: nat
  broken_list :: "entry list"
  dup_by_name :: "entry list list"
  dup_by_name_cmd :: "entry list list"

definition json_payload :: "entry list \<Rightarrow> payload" where
  "json_payload entries = \<lparr>
     total_candidates = length entries,
     broken_list = broken_entries entries,
     dup_by_name = dup_name_groups entries,
     dup_by_name_cmd = dup_name_cmd_groups entries \<rparr>"

section \<open>The driving loops\<close>

text \<open>
  The branch on the scope that the three loops share: the hidden entry's new path and
  the message about it.
\<close>

definition hide_entry ::
  "(string \<Rightarrow> string \<Rightarrow> string) \<Rightarrow> (string \<Rightarrow> string) \<Rightarrow> entry \<Rightarrow> world
     \<Rightarrow> (string + unit) \<times> world" where
  "hide_entry user_msg system_msg e w =
     (if scope e = ''user'' then
        (case disable_user_file (path e) w of
           (Inl m, w') \<Rightarrow> (Inl m, w')
         | (Inr newp, w') \<Rightarrow> (Inr (), emit (Print (user_msg (path e) newp)) w'))
      else
        (case set_nodisplay_override (path e) w of
           (Inl m, w') \<Rightarrow> (Inl m, w')
         | (Inr newp, w') \<Rightarrow> (Inr (), emit (Print (system_msg newp)) w')))"

text \<open>The messages of the loops.\<close>

definition msg_disabled_entry :: "string \<Rightarrow> string \<Rightarrow> string" where
  "msg_disabled_entry p newp = ''  - disabled user entry: '' @ p @ '' -> '' @ newp"

definition msg_shadowed_entry :: "string \<Rightarrow> string" where
  "msg_shadowed_entry newp = ''  - shadowed system entry with NoDisplay=true at: '' @ newp"

definition msg_disabled_duplicate :: "string \<Rightarrow> string \<Rightarrow> string" where
  "msg_disabled_duplicate p newp = ''    * disabled user duplicate: '' @ p @ '' -> '' @ newp"

definition msg_shadowed_duplicate :: "string \<Rightarrow> string" where
  "msg_shadowed_duplicate newp = ''    * shadowed system duplicate with NoDisplay=true: '' @ newp"

definition msg_keeping_by_name :: "entry \<Rightarrow> string" where
  "msg_keeping_by_name e =
     ''  - keeping (by name): '' @ path e @ '' ['' @ provider e @ ''/'' @ scope e @ '']''"

definition msg_keeping_by_name_cmd :: "entry \<Rightarrow> string" where
  "msg_keeping_by_name_cmd e = ''  - keeping (by name+cmd): '' @ path e"

text \<open>Lines 308 to 315.\<close>

fun fix_broken_loop :: "entry list \<Rightarrow> world \<Rightarrow> (string + unit) \<times> world" where
  "fix_broken_loop [] w = (Inr (), w)"
| "fix_broken_loop (e # es) w =
     (case hide_entry msg_disabled_entry msg_shadowed_entry e w of
        (Inl m, w') \<Rightarrow> (Inl m, w')
      | (Inr _, w') \<Rightarrow> fix_broken_loop es w')"

text \<open>The loop over one group, lines 322 to 331 and 341 to 350.\<close>

fun hide_others :: "(entry \<Rightarrow> string) \<Rightarrow> entry \<Rightarrow> entry list \<Rightarrow> world
    \<Rightarrow> (string + unit) \<times> world" where
  "hide_others keep_msg keep [] w = (Inr (), w)"
| "hide_others keep_msg keep (e # es) w =
     (if e = keep then hide_others keep_msg keep es (emit (Print (keep_msg e)) w)
      else
        (case hide_entry msg_disabled_duplicate msg_shadowed_duplicate e w of
           (Inl m, w') \<Rightarrow> (Inl m, w')
         | (Inr _, w') \<Rightarrow> hide_others keep_msg keep es w'))"

text \<open>Lines 320 to 331: the name strategy.\<close>

fun hide_by_name :: "string \<Rightarrow> entry list list \<Rightarrow> world \<Rightarrow> (string + unit) \<times> world" where
  "hide_by_name pref [] w = (Inr (), w)"
| "hide_by_name pref (grp # grps) w =
     (case keep_by_name pref grp of
        None \<Rightarrow> (Inl ''min() arg is an empty sequence'', w)
      | Some keep \<Rightarrow>
          (case hide_others msg_keeping_by_name keep grp w of
             (Inl m, w') \<Rightarrow> (Inl m, w')
           | (Inr _, w') \<Rightarrow> hide_by_name pref grps w'))"

text \<open>Lines 334 to 340: the first entry of scope \<open>system\<close>, else the first entry.\<close>

definition keep_by_name_cmd :: "entry list \<Rightarrow> entry option" where
  "keep_by_name_cmd grp =
     (case filter (\<lambda>e. scope e = ''system'') grp of
        e # _ \<Rightarrow> Some e
      | [] \<Rightarrow> (case grp of [] \<Rightarrow> None | e # _ \<Rightarrow> Some e))"

fun hide_by_name_cmd :: "entry list list \<Rightarrow> world \<Rightarrow> (string + unit) \<times> world" where
  "hide_by_name_cmd [] w = (Inr (), w)"
| "hide_by_name_cmd (grp # grps) w =
     (case keep_by_name_cmd grp of
        None \<Rightarrow> (Inl ''list index out of range'', w)
      | Some keep \<Rightarrow>
          (case hide_others msg_keeping_by_name_cmd keep grp w of
             (Inl m, w') \<Rightarrow> (Inl m, w')
           | (Inr _, w') \<Rightarrow> hide_by_name_cmd grps w'))"

section \<open>The program\<close>

record args =
  scan :: bool
  fix_broken :: bool
  hide_duplicates :: bool
  strategy :: string
  "prefer" :: string
  fix_mimeapps :: bool
  json :: "string option"

text \<open>Sequencing: an exception ends the run with the world as it is then.\<close>

definition and_then ::
  "(string + 'a) \<times> world \<Rightarrow> (world \<Rightarrow> (string + 'b) \<times> world) \<Rightarrow> (string + 'b) \<times> world" where
  "and_then r f = (case r of (Inl m, w) \<Rightarrow> (Inl m, w) | (Inr _, w) \<Rightarrow> f w)"

definition print_lines :: "string list \<Rightarrow> world \<Rightarrow> world" where
  "print_lines ls w = w\<lparr>trace := trace w @ map Print ls\<rparr>"

text \<open>Lines 278 to 294.\<close>

definition report_phase :: "args \<Rightarrow> entry list \<Rightarrow> world \<Rightarrow> (string + unit) \<times> world" where
  "report_phase a entries w =
     (if scan a \<or> (\<not> fix_broken a \<and> \<not> hide_duplicates a \<and> \<not> fix_mimeapps a)
      then (Inr (), print_lines (scan_report entries) w)
      else (Inr (), w))"

text \<open>Lines 296 to 304; \<open>dumps\<close> is \<open>json.dumps(_, indent=2)\<close>.\<close>

definition json_phase ::
  "(payload \<Rightarrow> string) \<Rightarrow> args \<Rightarrow> entry list \<Rightarrow> world \<Rightarrow> (string + unit) \<times> world" where
  "json_phase dumps a entries w =
     (case json a of
        None \<Rightarrow> (Inr (), w)
      | Some jp \<Rightarrow>
          if jp = [] then (Inr (), w)
          else
            (case write_text jp (dumps (json_payload entries)) w of
               (Inl m, w') \<Rightarrow> (Inl m, w')
             | (Inr _, w') \<Rightarrow>
                 (Inr (),
                  emit (Print (CHR 0x0A # ''JSON report written to '' @ jp))
                    (emit (JsonReport jp (dumps (json_payload entries))) w'))))"

text \<open>Lines 306 to 315.\<close>

definition fix_broken_phase :: "args \<Rightarrow> entry list \<Rightarrow> world \<Rightarrow> (string + unit) \<times> world" where
  "fix_broken_phase a entries w =
     (if fix_broken a
      then fix_broken_loop (broken_entries entries)
             (emit (Print (CHR 0x0A # ''Hiding/Disabling broken entries...'')) w)
      else (Inr (), w))"

text \<open>Lines 317 to 350.\<close>

definition hide_duplicates_phase :: "args \<Rightarrow> entry list \<Rightarrow> world \<Rightarrow> (string + unit) \<times> world" where
  "hide_duplicates_phase a entries w =
     (if hide_duplicates a then
        (let w0 = emit (Print (CHR 0x0A # ''Hiding redundant duplicates...'')) w
         in and_then
              (if strategy a \<in> {''name'', ''auto''}
               then hide_by_name (prefer a) (dup_name_groups entries) w0
               else (Inr (), w0))
              (\<lambda>w'. if strategy a \<in> {''name+cmd'', ''auto''}
                    then hide_by_name_cmd (dup_name_cmd_groups entries) w'
                    else (Inr (), w')))
      else (Inr (), w))"

text \<open>Lines 352 to 355.\<close>

definition fix_mimeapps_phase :: "args \<Rightarrow> entry list \<Rightarrow> world \<Rightarrow> (string + unit) \<times> world" where
  "fix_mimeapps_phase a entries w =
     (if fix_mimeapps a then
        (case clean_mimeapps (home w @ ''/.config/mimeapps.list'')
                (map (\<lambda>e. path_name (path e)) entries) w of
           (Inl m, w') \<Rightarrow> (Inl m, w')
         | (Inr (removed_dup, removed_missing), w') \<Rightarrow>
             (Inr (),
              emit (Print (CHR 0x0A # ''Cleaned mimeapps.list: removed '' @ str_nat removed_dup
                @ '' duplicate refs, '' @ str_nat removed_missing @ '' missing refs'')) w'))
      else (Inr (), w))"

text \<open>
  Lines 357 to 363. An exception of \<open>ensure_user_dir\<close> or of the helper is swallowed;
  \<open>Spawn\<close> records that the helper was launched.
\<close>

definition refresh_phase :: "args \<Rightarrow> world \<Rightarrow> (string + unit) \<times> world" where
  "refresh_phase a w =
     (if fix_broken a \<or> hide_duplicates a \<or> fix_mimeapps a then
        (let w1 = (case ensure_user_dir w of
                     (Inl m, w') \<Rightarrow> w'
                   | (Inr ud, w') \<Rightarrow> emit (Spawn [''update-desktop-database'', ud]) w')
         in (Inr (),
             print_lines
               [CHR 0x0A # ''Done. You may need to restart xdg-desktop-portal (or log out/in) for menus to refresh:'',
                ''  systemctl --user restart xdg-desktop-portal xdg-desktop-portal-gtk || true'']
               w1))
      else (Inr (), w))"

definition main :: "(payload \<Rightarrow> string) \<Rightarrow> args \<Rightarrow> world \<Rightarrow> (string + unit) \<times> world" where
  "main dumps a w =
     (let entries = load_entries w
      in and_then (and_then (and_then (and_then (and_then
           (report_phase a entries w)
           (json_phase dumps a entries))
           (fix_broken_phase a entries))
           (hide_duplicates_phase a entries))
           (fix_mimeapps_phase a entries))
           (refresh_phase a))"

section \<open>Observing a run\<close>

text \<open>
  The JSON reports written and the lines printed so far; \<open>steady w w'\<close> says that a run
  from \<open>w\<close> to \<open>w'\<close> has written no JSON report and has left the home directory and the
  failures of the operating system as they were; \<open>dirs_ok\<close> that creating the user's
  application directory and the directory for disabled entries does not fail.
\<close>

fun is_json_report :: "event \<Rightarrow> bool" where
  "is_json_report (JsonReport p t) = True"
| "is_json_report _ = False"

fun is_print :: "event \<Rightarrow> bool" where
  "is_print (Print s) = True"
| "is_print _ = False"

definition json_reports :: "world \<Rightarrow> event list" where
  "json_reports w = filter is_json_report (trace w)"

definition printed :: "world \<Rightarrow> event list" where
  "printed w = filter is_print (trace w)"

definition steady :: "world \<Rightarrow> world \<Rightarrow> bool" where
  "steady w w' \<longleftrightarrow>
     home w' = home w \<and> mkdir_error w' = mkdir_error w \<and> read_error w' = read_error w \<and>
     write_error w' = write_error w \<and> move_error w' = move_error w \<and>
     json_reports w' = json_reports w"

definition dirs_ok :: "world \<Rightarrow> bool" where
  "dirs_ok w \<longleftrightarrow>
     mkdir_error w (home w @ ''/.local/share/applications'') = None \<and>
     mkdir_error w (home w @ ''/.local/share/applications/.disabled'') = None"

section \<open>Values and configurations that a pass leaves as they are\<close>

text \<open>
  Notions used in the statements about a second pass of \<open>clean_mimeapps\<close>: the items of
  a value, \<open>[x for x in val.split(';') if x]\<close>; a value that the lines 233 to
  245 give back with the counters untouched; two configurations that differ at most in
  the options of one section, which keeps being present or absent; a section all of whose
  keys hold such values.
\<close>

definition value_items :: "string \<Rightarrow> string list" where
  "value_items v = filter (\<lambda>x. x \<noteq> []) (split_on CHR '';'' v)"

definition clean_val :: "string list \<Rightarrow> string \<Rightarrow> bool" where
  "clean_val ex v \<longleftrightarrow> (\<forall>d m. clean_value ex v (d, m) = (v, d, m))"

definition same_elsewhere :: "string \<Rightarrow> config \<Rightarrow> config \<Rightarrow> bool" where
  "same_elsewhere sect cfg cfg' \<longleftrightarrow>
     defaults cfg' = defaults cfg \<and>
     (\<forall>s. s \<noteq> sect \<longrightarrow> map_of (sections cfg') s = map_of (sections cfg) s) \<and>
     (map_of (sections cfg') sect = None \<longleftrightarrow> map_of (sections cfg) sect = None)"

definition sect_clean :: "string list \<Rightarrow> config \<Rightarrow> string \<Rightarrow> bool" where
  "sect_clean ex cfg sect \<longleftrightarrow>
     (\<forall>k\<in>set (cfg_keys cfg sect). \<exists>v. cfg_get cfg sect k = Some v \<and> clean_val ex v)"

section \<open>Worlds used in the examples\<close>

text \<open>
  A machine with a shell and an editor installed and nothing else: \<open>/usr/bin/env\<close> and
  \<open>/usr/bin/gedit\<close> exist, \<open>sh\<close>, \<open>env\<close> and \<open>gedit\<close> are on the search path.
\<close>

definition plain_world :: world where
  "plain_world = \<lparr>
     home = ''/home/u'',
     files = [''/usr/bin/env'' \<mapsto> [], ''/usr/bin/gedit'' \<mapsto> [], ''/usr/bin/sh'' \<mapsto> []],
     links = Map.empty,
     dirs = {''/usr/bin''},
     on_path = (\<lambda>c. c = ''sh'' \<or> c = ''env'' \<or> c = ''gedit''),
     listdir = (\<lambda>d. []),
     file_id = (\<lambda>p. 0),
     desktop_entry = (\<lambda>p. Inr None),
     mkdir_error = (\<lambda>p. None),
     read_error = (\<lambda>p. None),
     write_error = (\<lambda>p. None),
     move_error = (\<lambda>p. None),
     write_partial = (\<lambda>p. None),
     move_partial = (\<lambda>p. None),
     trace = [] \<rparr>"

text \<open>Two descriptors of one editor, a native one and a Flatpak export.\<close>

definition editor_native :: entry where
  "editor_native = \<lparr> path = ''/usr/share/applications/org.gnome.gedit.desktop'',
     scope = ''system'', name = ''Editor'', exec_line = ''gedit %U'', tryexec = [],
     mimetypes = [''text/plain''], hidden = False, nodisplay = False,
     entry_type = ''Application'', first_cmd = ''gedit'', provider = ''native'',
     broken = False, reason = [] \<rparr>"

definition editor_flatpak :: entry where
  "editor_flatpak = \<lparr>
     path = ''/var/lib/flatpak/exports/share/applications/org.gnome.gedit.desktop'',
     scope = ''system'', name = ''Editor'',
     exec_line = ''/usr/bin/flatpak run org.gnome.gedit %U'', tryexec = [],
     mimetypes = [''text/plain''], hidden = False, nodisplay = False,
     entry_type = ''Application'', first_cmd = ''/usr/bin/flatpak'', provider = ''flatpak'',
     broken = False, reason = [] \<rparr>"


text \<open>
  A machine on which the user's \<open>gedit.desktop\<close> is a symbolic link to the system's: two
  paths, one file.
\<close>

definition linked_world :: world where
  "linked_world = plain_world \<lparr>
     files := [''/usr/share/applications/gedit.desktop'' \<mapsto>
                 ''[Desktop Entry]\<newline>Name=Editor\<newline>Exec=gedit %U\<newline>''],
     links := [''/home/u/.local/share/applications/gedit.desktop'' \<mapsto>
                 ''/usr/share/applications/gedit.desktop''],
     dirs := {''/home/u/.local/share/applications'', ''/usr/share/applications''},
     listdir := (\<lambda>d. if d = ''/home/u/.local/share/applications'' then [''gedit.desktop'', ''notes.txt'']
                      else if d = ''/usr/share/applications'' then [''gedit.desktop'']
                      else []),
     file_id := (\<lambda>p. if p = ''/home/u/.local/share/applications/gedit.desktop'' \<or>
                          p = ''/usr/share/applications/gedit.desktop'' then 7 else 0) \<rparr>"

text \<open>
  A machine with two system descriptors: \<open>bad.desktop\<close>, which the parser rejects, and a
  well-formed \<open>gedit.desktop\<close>.
\<close>

definition garbled_world :: world where
  "garbled_world = plain_world \<lparr>
     dirs := {''/usr/share/applications''},
     listdir := (\<lambda>d. if d = ''/usr/share/applications'' then [''bad.desktop'', ''gedit.desktop'']
                      else []),
     desktop_entry := (\<lambda>p.
       if p = ''/usr/share/applications/bad.desktop''
       then Inl ''File contains no section headers.''
       else if p = ''/usr/share/applications/gedit.desktop''
       then Inr (Some [''Type'' \<mapsto> ''Application'', ''Name'' \<mapsto> ''Editor'',
                       ''Exec'' \<mapsto> ''gedit %U'', ''MimeType'' \<mapsto> ''text/plain;''])
       else Inr None) \<rparr>"

text \<open>
  A machine with a broken descriptor of the user's that cannot be moved, and a broken
  system descriptor.
\<close>

definition stuck_world :: world where
  "stuck_world = plain_world \<lparr>
     files := [''/home/u/.local/share/applications/mine.desktop'' \<mapsto>
                 ''[Desktop Entry]\<newline>Name=Mine\<newline>Exec=/opt/gone/mine\<newline>'',
               ''/usr/share/applications/old.desktop'' \<mapsto>
                 ''[Desktop Entry]\<newline>Name=Old\<newline>Exec=/opt/gone/app\<newline>''],
     move_error := (\<lambda>p. if p = ''/home/u/.local/share/applications/mine.desktop''
                         then Some ''[Errno 13] Permission denied'' else None) \<rparr>"

definition mine_entry :: entry where
  "mine_entry = \<lparr> path = ''/home/u/.local/share/applications/mine.desktop'',
     scope = ''user'', name = ''Mine'', exec_line = ''/opt/gone/mine'', tryexec = [],
     mimetypes = [''text/plain''], hidden = False, nodisplay = False,
     entry_type = ''Application'', first_cmd = ''/opt/gone/mine'', provider = ''other'',
     broken = True, reason = ''Executable not found: /opt/gone/mine'' \<rparr>"

definition old_entry :: entry where
  "old_entry = \<lparr> path = ''/usr/share/applications/old.desktop'',
     scope = ''system'', name = ''Old'', exec_line = ''/opt/gone/app'', tryexec = [],
     mimetypes = [''text/plain''], hidden = False, nodisplay = False,
     entry_type = ''Application'', first_cmd = ''/opt/gone/app'', provider = ''other'',
     broken = True, reason = ''Executable not found: /opt/gone/app'' \<rparr>"

text \<open>
  The same machine with the two descriptors found by the scan, and two command lines that
  ask for the JSON report: one that only reports, one with every repairing flag.
\<close>

definition busy_world :: world where
  "busy_world = stuck_world \<lparr>
     dirs := {''/home/u/.local/share/applications'', ''/usr/share/applications''},
     listdir := (\<lambda>d. if d = ''/home/u/.local/share/applications'' then [''mine.desktop'']
                      else if d = ''/usr/share/applications'' then [''old.desktop'']
                      else []),
     desktop_entry := (\<lambda>p.
       if p = ''/home/u/.local/share/applications/mine.desktop''
       then Inr (Some [''Name'' \<mapsto> ''Mine'', ''Exec'' \<mapsto> ''/opt/gone/mine'',
                       ''MimeType'' \<mapsto> ''text/plain;''])
       else if p = ''/usr/share/applications/old.desktop''
       then Inr (Some [''Name'' \<mapsto> ''Old'', ''Exec'' \<mapsto> ''/opt/gone/app'',
                       ''MimeType'' \<mapsto> ''text/plain;''])
       else Inr None) \<rparr>"

definition report_args :: args where
  "report_args = \<lparr> scan = False, fix_broken = False, hide_duplicates = False,
     strategy = ''auto'', prefer = ''native'', fix_mimeapps = False,
     json = Some ''/tmp/report.json'' \<rparr>"

definition repair_args :: args where
  "repair_args = \<lparr> scan = True, fix_broken = True, hide_duplicates = True,
     strategy = ''name'', prefer = ''flatpak'', fix_mimeapps = True,
     json = Some ''/tmp/report.json'' \<rparr>"


text \<open>
  Two association files in the user's configuration directory: the one of the round trip,
  and one whose second identifier begins with a blank.
\<close>

definition assoc_world :: world where
  "assoc_world = plain_world\<lparr>files := (files plain_world)
     (''/home/u/.config/mimeapps.list'' \<mapsto>
        ''[Added Associations]\<newline>text/plain=a.desktop;missing.desktop;a.desktop;\<newline>'')\<rparr>"

definition blank_world :: world where
  "blank_world = plain_world\<lparr>files := (files plain_world)
     (''/home/u/.config/mimeapps.list'' \<mapsto>
        ''[Added Associations]\<newline>text/plain=gone.desktop; b.desktop;\<newline>'')\<rparr>"

section \<open>Properties of the tokenizer\<close>

lemma re_token_plain:
  "\<forall>c\<in>set cmd. \<not> is_space c \<and> \<not> is_quote c \<Longrightarrow> t = [] \<or> is_space (hd t) \<Longrightarrow>
   re_token None (cmd @ t) = (cmd, t)"
  by (induction cmd) (cases t; auto)+

lemma dropWhile_unchanged: "xs \<noteq> [] \<Longrightarrow> \<not> P (hd xs) \<Longrightarrow> dropWhile P xs = xs"
  by (cases xs) auto

lemma strip_plain:
  assumes "cmd \<noteq> []" "\<forall>c\<in>set cmd. \<not> is_space c \<and> \<not> is_quote c"
  shows "\<exists>t. strip (cmd @ CHR '' '' # rest) = cmd @ t \<and> (t = [] \<or> is_space (hd t))"
proof -
  have sp: "is_space CHR '' ''" by (simp add: is_space_def)
  have h: "\<not> is_space (hd cmd)" "\<not> is_space (last cmd)" using assms by auto
  have 1: "dropWhile is_space (cmd @ CHR '' '' # rest) = cmd @ CHR '' '' # rest"
    using assms(1) h(1) by (cases cmd) auto
  have 2: "dropWhile is_space (rev cmd) = rev cmd"
    using assms(1) h(2) by (intro dropWhile_unchanged) (auto simp: hd_rev)
  show ?thesis
  proof (cases "\<forall>x\<in>set rest. is_space x")
    case True
    then have "dropWhile is_space (rev (cmd @ CHR '' '' # rest)) = rev cmd"
      by (simp add: dropWhile_append sp 2)
    then have "strip (cmd @ CHR '' '' # rest) = cmd"
      unfolding strip_def 1 by simp
    then show ?thesis by simp
  next
    case False
    then have "dropWhile is_space (rev (cmd @ CHR '' '' # rest))
        = dropWhile is_space (rev rest) @ CHR '' '' # rev cmd"
      by (auto simp add: dropWhile_append)
    then have "strip (cmd @ CHR '' '' # rest)
        = cmd @ CHR '' '' # rev (dropWhile is_space (rev rest))"
      unfolding strip_def 1 by simp
    then show ?thesis using sp by simp
  qed
qed

lemma extract_first_command_plain:
  assumes "cmd \<noteq> []" "\<forall>c\<in>set cmd. \<not> is_space c \<and> \<not> is_quote c"
  shows "extract_first_command (cmd @ CHR '' '' # rest) = cmd"
proof -
  obtain t where t: "strip (cmd @ CHR '' '' # rest) = cmd @ t" "t = [] \<or> is_space (hd t)"
    using strip_plain [OF assms] by blast
  obtain c cs where c: "cmd = c # cs" using assms(1) by (cases cmd) auto
  have tok: "re_token None ((c # cs) @ t) = (c # cs, t)"
    using re_token_plain [OF assms(2) t(2)] c by simp
  have "re_findall (cmd @ t) = cmd # re_findall t"
    using tok c by simp
  moreover have "\<not> is_quote (hd cmd)" using assms by (cases cmd) auto
  ultimately show ?thesis
    using t(1) assms(1) by (auto simp: extract_first_command_def is_quote_def)
qed

section \<open>Health classification: precedence\<close>

text \<open>
  Claim C1. \<open>looks_broken\<close> decides in this order: a declared TryExec hint that does not
  resolve makes the entry broken, with a reason that names the hint; otherwise an empty
  resolved command makes it broken with reason \<open>Empty Exec\<close>; otherwise, when the base
  name of the resolved command, or the command itself, is a wrapper token, the entry is
  broken exactly when the wrapper does not resolve; otherwise it is broken exactly when
  the resolved command does not resolve. A healthy entry has the empty reason and a
  broken one a non-empty reason. To resolve means: an absolute path exists, any other
  command is found by the search-path lookup.
\<close>

theorem looks_broken_precedence:
  "(let cmd = extract_first_command line;
        hint_fails = (hint \<noteq> [] \<and> \<not> which_exists w hint);
        wrapper = (path_name cmd \<in> WRAPPER_CMDS \<or> cmd \<in> WRAPPER_CMDS);
        r = looks_broken w line hint
    in (hint_fails \<longrightarrow> r = (True, ''TryExec not found: '' @ hint)) \<and>
       (\<not> hint_fails \<and> cmd = [] \<longrightarrow> r = (True, ''Empty Exec'')) \<and>
       (\<not> hint_fails \<and> cmd \<noteq> [] \<and> wrapper \<longrightarrow>
          fst r = (\<not> which_exists w cmd) \<and>
          (fst r \<longrightarrow> snd r = ''Wrapper not found in PATH: '' @ cmd)) \<and>
       (\<not> hint_fails \<and> cmd \<noteq> [] \<and> \<not> wrapper \<longrightarrow>
          fst r = (\<not> which_exists w cmd) \<and>
          (fst r \<longrightarrow> snd r = ''Executable not found: '' @ cmd)) \<and>
       (fst r = (snd r \<noteq> [])) \<and>
       which_exists w c = (c \<noteq> [] \<and> (if is_absolute c then path_exists w c else on_path w c)))"
  by (auto simp: looks_broken_def which_exists_def Let_def)

text \<open>
  The six branches at work on a machine that has \<open>sh\<close> and \<open>gedit\<close> but neither \<open>bash\<close>
  nor \<open>/opt/gone/app\<close>.
\<close>

theorem looks_broken_precedence_witness:
  "looks_broken plain_world ''gedit %U'' ''nosuch'' = (True, ''TryExec not found: nosuch'') \<and>
   looks_broken plain_world [] [] = (True, ''Empty Exec'') \<and>
   looks_broken plain_world ''sh -c /no/such/target'' [] = (False, []) \<and>
   looks_broken plain_world ''/usr/bin/bash -c true'' [] =
     (True, ''Wrapper not found in PATH: /usr/bin/bash'') \<and>
   looks_broken plain_world ''/usr/bin/gedit %U'' ''gedit'' = (False, []) \<and>
   looks_broken plain_world ''/opt/gone/app --new-window'' [] =
     (True, ''Executable not found: /opt/gone/app'')"
proof -
  have c: "extract_first_command [] = []"
    "extract_first_command ''sh -c /no/such/target'' = ''sh''"
    "extract_first_command ''/usr/bin/bash -c true'' = ''/usr/bin/bash''"
    "extract_first_command ''/usr/bin/gedit %U'' = ''/usr/bin/gedit''"
    "extract_first_command ''/opt/gone/app --new-window'' = ''/opt/gone/app''"
    by (simp_all add: extract_first_command_def strip_def is_space_def is_quote_def)
  have x: "\<not> which_exists plain_world ''nosuch''" "which_exists plain_world ''sh''"
    "\<not> which_exists plain_world ''/usr/bin/bash''" "which_exists plain_world ''/usr/bin/gedit''"
    "which_exists plain_world ''gedit''" "\<not> which_exists plain_world ''/opt/gone/app''"
    by (simp_all add: which_exists_def is_absolute_def path_exists_def resolve_def plain_world_def)
  have n: "path_name ''sh'' \<in> WRAPPER_CMDS" "path_name ''/usr/bin/bash'' \<in> WRAPPER_CMDS"
    "path_name ''/usr/bin/gedit'' \<notin> WRAPPER_CMDS" "''/usr/bin/gedit'' \<notin> WRAPPER_CMDS"
    "path_name ''/opt/gone/app'' \<notin> WRAPPER_CMDS" "''/opt/gone/app'' \<notin> WRAPPER_CMDS"
    by (simp_all add: path_name_def WRAPPER_CMDS_def)
  have "looks_broken plain_world ''gedit %U'' ''nosuch'' = (True, ''TryExec not found: nosuch'')"
    using looks_broken_precedence [of "''gedit %U''" "''nosuch''" plain_world "[]"] x
    by (simp add: Let_def)
  moreover have "looks_broken plain_world [] [] = (True, ''Empty Exec'')"
    using looks_broken_precedence [of "[]" "[]" plain_world "[]"] c
    by (simp add: Let_def)
  moreover have "looks_broken plain_world ''sh -c /no/such/target'' [] = (False, [])"
    using looks_broken_precedence [of "''sh -c /no/such/target''" "[]" plain_world "[]"] c x n
    by (auto simp: Let_def prod_eq_iff)
  moreover have "looks_broken plain_world ''/usr/bin/bash -c true'' [] =
      (True, ''Wrapper not found in PATH: /usr/bin/bash'')"
    using looks_broken_precedence [of "''/usr/bin/bash -c true''" "[]" plain_world "[]"] c x n
    by (auto simp: Let_def prod_eq_iff)
  moreover have "looks_broken plain_world ''/usr/bin/gedit %U'' ''gedit'' = (False, [])"
    using looks_broken_precedence [of "''/usr/bin/gedit %U''" "''gedit''" plain_world "[]"] c x n
    by (auto simp: Let_def prod_eq_iff)
  moreover have "looks_broken plain_world ''/opt/gone/app --new-window'' [] =
      (True, ''Executable not found: /opt/gone/app'')"
    using looks_broken_precedence [of "''/opt/gone/app --new-window''" "[]" plain_world "[]"] c x n
    by (auto simp: Let_def prod_eq_iff)
  ultimately show ?thesis by blast
qed

section \<open>Health classification: wrappers\<close>

text \<open>
  The statement "a wrapper that resolves is never broken, for every TryExec field" fails:
  the TryExec test comes first, so a hint that does not resolve marks the entry broken
  although its command \<open>sh\<close> is a wrapper that resolves.
\<close>

theorem wrapper_failing_hint_counterexample:
  "extract_first_command ''sh -c /no/such/target'' = ''sh'' \<and> ''sh'' \<in> WRAPPER_CMDS \<and>
   which_exists plain_world ''sh'' \<and>
   looks_broken plain_world ''sh -c /no/such/target'' ''nosuch'' \<noteq> (False, []) \<and>
   looks_broken plain_world ''sh -c /no/such/target'' ''nosuch'' = (True, ''TryExec not found: nosuch'')"
  by (simp add: looks_broken_def extract_first_command_def strip_def is_space_def is_quote_def
      which_exists_def is_absolute_def path_exists_def resolve_def plain_world_def WRAPPER_CMDS_def)

text \<open>
  Claim C2, amended. When the resolved first command is a wrapper token (by its base name
  or as a whole) that resolves, and the TryExec field is empty or resolves, the entry is
  healthy with the empty reason, whatever follows the command on the Exec line: for every
  Exec line with that first command, and in particular for the command followed by a
  blank and any text at all.
\<close>

theorem wrapper_resolves_healthy:
  assumes "which_exists w cmd"
    and "path_name cmd \<in> WRAPPER_CMDS \<or> cmd \<in> WRAPPER_CMDS"
    and "hint = [] \<or> which_exists w hint"
  shows "(extract_first_command line = cmd \<longrightarrow>
            looks_broken w line hint = (False, [])) \<and>
         ((\<forall>c\<in>set cmd. \<not> is_space c \<and> \<not> is_quote c) \<longrightarrow>
            looks_broken w (cmd @ CHR '' '' # rest) hint = (False, []))"
proof -
  have ne: "cmd \<noteq> []" using assms(1) by (auto simp: which_exists_def)
  have gen: "looks_broken w e hint = (False, [])" if "extract_first_command e = cmd" for e
    using that assms ne by (auto simp: looks_broken_def Let_def)
  show ?thesis
    using gen extract_first_command_plain [OF ne] by blast
qed

theorem wrapper_resolves_healthy_witness:
  "which_exists plain_world ''sh'' \<and> ''sh'' \<in> WRAPPER_CMDS \<and> which_exists plain_world ''gedit'' \<and>
   extract_first_command ''sh -c /no/such/target'' = ''sh'' \<and>
   looks_broken plain_world ''sh -c /no/such/target'' ''gedit'' = (False, []) \<and>
   looks_broken plain_world (''sh'' @ CHR '' '' # ''/no/such/script --flag'') ''gedit'' = (False, [])"
proof -
  have a: "which_exists plain_world ''sh''" by (simp add: extract_first_command_def strip_def is_space_def is_quote_def which_exists_def
      is_absolute_def path_exists_def resolve_def plain_world_def)
  have b: "path_name ''sh'' \<in> WRAPPER_CMDS \<or> ''sh'' \<in> WRAPPER_CMDS" by (simp add: WRAPPER_CMDS_def)
  have c: "''gedit'' = [] \<or> which_exists plain_world ''gedit''" by (simp add: extract_first_command_def strip_def is_space_def is_quote_def which_exists_def
      is_absolute_def path_exists_def resolve_def plain_world_def)
  have d: "extract_first_command ''sh -c /no/such/target'' = ''sh''" by (simp add: extract_first_command_def strip_def is_space_def is_quote_def which_exists_def
      is_absolute_def path_exists_def resolve_def plain_world_def)
  have e: "\<forall>c\<in>set ''sh''. \<not> is_space c \<and> \<not> is_quote c" by (simp add: extract_first_command_def strip_def is_space_def is_quote_def which_exists_def
      is_absolute_def path_exists_def resolve_def plain_world_def)
  show ?thesis
    using wrapper_resolves_healthy [OF a b c, of "''sh -c /no/such/target''" "''/no/such/script --flag''"] a b c d e
    by (simp add: WRAPPER_CMDS_def)
qed

section \<open>Duplicate hiding: the entry that is kept\<close>

lemma foldl_min_mem:
  "foldl (\<lambda>best y. if key y < key best then y else best) x xs \<in> set (x # xs)"
  by (induction xs arbitrary: x) auto

lemma foldl_min_below:
  fixes key :: "'a \<Rightarrow> 'k::linorder"
  shows "key (foldl (\<lambda>best y. if key y < key best then y else best) x xs) \<le> key x"
proof (induction xs arbitrary: x)
  case Nil then show ?case by simp
next
  case (Cons a xs)
  show ?case using Cons [of a] Cons [of x] by (auto simp: less_imp_le order_trans)
qed

lemma foldl_min_le:
  fixes key :: "'a \<Rightarrow> 'k::linorder"
  shows "y \<in> set (x # xs) \<Longrightarrow>
    key (foldl (\<lambda>best y. if key y < key best then y else best) x xs) \<le> key y"
proof (induction xs arbitrary: x)
  case Nil then show ?case by simp
next
  case (Cons a xs)
  show ?case
  proof (cases "key a < key x")
    case True
    then show ?thesis
      using Cons.prems Cons.IH [of a] foldl_min_below [of key a xs] by auto
  next
    case False
    then show ?thesis
      using Cons.prems Cons.IH [of x] foldl_min_below [of key x xs] by auto
  qed
qed

lemma py_min_least:
  fixes key :: "'a \<Rightarrow> 'k::linorder"
  assumes "g \<noteq> []"
  shows "\<exists>m. py_min key g = Some m \<and> m \<in> set g \<and> (\<forall>y\<in>set g. key m \<le> key y)"
proof -
  obtain x xs where g: "g = x # xs" using assms by (cases g) auto
  show ?thesis unfolding g py_min.simps
    using foldl_min_mem [of key x xs] foldl_min_le [of _ x xs key] by blast
qed

lemma py_min_unique:
  fixes key :: "'a \<Rightarrow> 'k::linorder"
  assumes "inj_on key (set g)" "m \<in> set g" "\<forall>y\<in>set g. key m \<le> key y"
  shows "py_min key g = Some m"
proof -
  have "g \<noteq> []" using assms(2) by auto
  then obtain m' where m': "py_min key g = Some m'" "m' \<in> set g" "\<forall>y\<in>set g. key m' \<le> key y"
    using py_min_least by blast
  then have "key m' = key m" using assms(2,3) by (meson order_antisym)
  then show ?thesis using m' assms(1,2) by (auto dest: inj_onD)
qed

lemma keep_key_inj: "distinct (map path g) \<Longrightarrow> inj_on (keep_key pref) (set g)"
  by (auto simp: inj_on_def keep_key_def distinct_map)

lemma provider_rank_zero:
  "provider_rank p ''native'' = 0 \<longleftrightarrow> p = ''native''"
  by (auto simp: provider_rank_def split: option.splits if_splits)


lemma provider_rank_bounds:
  "provider_rank p pref \<le> 3" "provider_rank ''other'' pref = 3"
  "provider_rank ''native'' ''native'' = 0" "provider_rank ''flatpak'' ''flatpak'' = 0"
  "provider_rank ''snap'' ''snap'' = 0"
  by (auto simp: provider_rank_def split: option.splits if_splits)

text \<open>
  Claim C3. In a group of entries with pairwise different paths the name strategy keeps
  exactly one entry: one of least provider rank under the configured preference, among
  those one of scope \<open>system\<close> if there is any, among those the one with the least path.
  The choice is the same for every reordering of the group. With preference \<open>native\<close> a
  group that has a native entry keeps a native entry. The preferred provider has rank 0,
  \<open>other\<close> has rank 3, and no rank exceeds 3.
\<close>

theorem keep_by_name_deterministic:
  assumes "grp \<noteq> []" and "distinct (map path grp)"
  shows "\<exists>keep. keep_by_name pref grp = Some keep \<and> keep \<in> set grp \<and>
      length (filter (\<lambda>e. e = keep) grp) = 1 \<and>
      (\<forall>e\<in>set grp.
          provider_rank (provider keep) pref \<le> provider_rank (provider e) pref \<and>
          (provider_rank (provider e) pref = provider_rank (provider keep) pref \<longrightarrow>
             (scope e = ''system'' \<longrightarrow> scope keep = ''system'') \<and>
             ((scope e = ''system'') = (scope keep = ''system'') \<longrightarrow> path keep \<le> path e))) \<and>
      (\<forall>grp'. mset grp' = mset grp \<longrightarrow> keep_by_name pref grp' = Some keep) \<and>
      (pref = ''native'' \<and> (\<exists>e\<in>set grp. provider e = ''native'') \<longrightarrow>
         provider keep = ''native'') \<and>
      provider_rank pref pref = (if pref \<in> {''native'', ''flatpak'', ''snap''} then 0 else 3) \<and>
      provider_rank ''other'' pref = 3 \<and>
      (\<forall>p. provider_rank p pref \<le> 3)"
proof -
  obtain keep where k: "py_min (keep_key pref) grp = Some keep" "keep \<in> set grp"
      "\<forall>y\<in>set grp. keep_key pref keep \<le> keep_key pref y"
    using py_min_least [OF assms(1)] by blast
  have dist: "distinct grp" using assms(2) by (simp add: distinct_map)
  have one: "length (filter (\<lambda>e. e = keep) grp) = 1"
    using dist k(2) by (induction grp) (auto simp: filter_empty_conv)
  have order: "provider_rank (provider keep) pref \<le> provider_rank (provider e) pref \<and>
          (provider_rank (provider e) pref = provider_rank (provider keep) pref \<longrightarrow>
             (scope e = ''system'' \<longrightarrow> scope keep = ''system'') \<and>
             ((scope e = ''system'') = (scope keep = ''system'') \<longrightarrow> path keep \<le> path e))"
    if "e \<in> set grp" for e
    using k(3) that
    by (auto simp: keep_key_def less_eq_prod_def less_prod_def split: if_splits dest!: bspec [of _ _ e])
  have perm: "keep_by_name pref grp' = Some keep" if "mset grp' = mset grp" for grp'
  proof -
    have s: "set grp' = set grp" using that by (rule mset_eq_setD)
    have "inj_on (keep_key pref) (set grp')"
      unfolding s using assms(2) by (rule keep_key_inj)
    then show ?thesis
      unfolding keep_by_name_def using k(2,3) s by (intro py_min_unique) auto
  qed
  have nat: "provider keep = ''native''"
    if pn: "pref = ''native''" and ex: "\<exists>e\<in>set grp. provider e = ''native''"
  proof -
    obtain e where e: "e \<in> set grp" "provider e = ''native''" using ex by blast
    have "provider_rank (provider keep) ''native'' \<le> provider_rank ''native'' ''native''"
      using order [OF e(1)] e(2) pn by simp
    then show ?thesis using provider_rank_zero [of "provider keep"] provider_rank_bounds(3) by simp
  qed
  have r: "provider_rank pref pref = (if pref \<in> {''native'', ''flatpak'', ''snap''} then 0 else 3)"
    by (auto simp: provider_rank_def split: option.splits)
  show ?thesis
    using k(1,2) one order perm nat r provider_rank_bounds(1,2)
    unfolding keep_by_name_def by blast
qed

text \<open>A Flatpak export and a native descriptor, in both orders.\<close>

theorem keep_by_name_deterministic_witness:
  "[editor_flatpak, editor_native] \<noteq> [] \<and>
   distinct (map path [editor_flatpak, editor_native]) \<and>
   keep_by_name ''native'' [editor_flatpak, editor_native] = Some editor_native \<and>
   keep_by_name ''native'' [editor_native, editor_flatpak] = Some editor_native"
proof -
  have d: "distinct (map path [editor_flatpak, editor_native])"
    by (simp add: editor_flatpak_def editor_native_def)
  have ne: "[editor_flatpak, editor_native] \<noteq> []" by simp
  have p: "provider editor_native = ''native''" "provider editor_flatpak \<noteq> ''native''"
    by (simp_all add: editor_flatpak_def editor_native_def)
  obtain keep where k: "keep_by_name ''native'' [editor_flatpak, editor_native] = Some keep"
      "keep \<in> set [editor_flatpak, editor_native]"
      "\<forall>grp'. mset grp' = mset [editor_flatpak, editor_native] \<longrightarrow>
         keep_by_name ''native'' grp' = Some keep"
      "provider keep = ''native''"
    using keep_by_name_deterministic [OF ne d, of "''native''"] p(1) by auto
  have "keep = editor_native" using k(2,4) p(2) by auto
  moreover have "mset [editor_native, editor_flatpak] = mset [editor_flatpak, editor_native]"
    by simp
  ultimately show ?thesis using k(1,3) d by blast
qed

section \<open>Hiding a system entry\<close>




lemma put_file_frame [simp]:
  "files (put_file p t w) = (files w)(resolve w p \<mapsto> t)" "links (put_file p t w) = links w"
  "dirs (put_file p t w) = dirs w" "trace (put_file p t w) = trace w"
  "home (put_file p t w) = home w"
  by (simp_all add: put_file_def)

lemma resolve_dirs [simp]: "resolve (w\<lparr>dirs := ds\<rparr>) p = resolve w p"
  by (simp add: resolve_def)

lemma put_file_dirs: "put_file p t (w\<lparr>dirs := ds\<rparr>) = (put_file p t w)\<lparr>dirs := ds\<rparr>"
  by (simp add: put_file_def)

lemma read_text_dirs [simp]: "read_text p (w\<lparr>dirs := ds\<rparr>) = read_text p w"
  by (simp add: read_text_def split: option.splits)

lemma set_nodisplay_override_cases:
  assumes "set_nodisplay_override p w = (r, w')"
  defines "ud \<equiv> home w @ ''/.local/share/applications''"
  defines "dst \<equiv> path_join ud (path_name p)"
  defines "w1 \<equiv> w\<lparr>dirs := dirs w \<union> set (dir_chain ud)\<rparr>"
  shows "(\<exists>m. mkdir_error w ud = Some m \<and> r = Inl m \<and> w' = w) \<or>
     (\<exists>e. mkdir_error w ud = None \<and> read_text p w = Inl e \<and> r = Inr p \<and>
        w' = emit (PrintErr (''Failed to override '' @ p @ '': '' @ e)) w1) \<or>
     (\<exists>c e. mkdir_error w ud = None \<and> read_text p w = Inr c \<and> write_error w dst = Some e \<and>
        r = Inr p \<and>
        w' = emit (PrintErr (''Failed to override '' @ p @ '': '' @ e))
               (case write_partial w dst of None \<Rightarrow> w1 | Some part \<Rightarrow> put_file dst part w1)) \<or>
     (\<exists>c. mkdir_error w ud = None \<and> read_text p w = Inr c \<and> write_error w dst = None \<and>
        r = Inr dst \<and>
        w' = put_file dst (join [CHR 0x0A] (force_nodisplay (splitlines c)) @ [CHR 0x0A]) w1)"
proof (cases "mkdir_error w ud")
  case (Some m)
  then show ?thesis
    using assms(1)
    by (auto simp: set_nodisplay_override_def ensure_user_dir_def mkdir_parents_def ud_def)
next
  case None
  then have e: "ensure_user_dir w = (Inr ud, w1)"
    by (simp add: ensure_user_dir_def mkdir_parents_def ud_def w1_def Let_def)
  have w1: "read_text p w1 = read_text p w" "write_error w1 = write_error w"
    "write_partial w1 = write_partial w"
    by (simp_all add: w1_def)
  show ?thesis
  proof (cases "read_text p w")
    case (Inl m)
    then show ?thesis
      using assms(1) None
      by (auto simp: set_nodisplay_override_def e w1 Let_def ud_def [symmetric])
  next
    case (Inr c)
    show ?thesis
    proof (cases "write_error w dst")
      case (Some m)
      then show ?thesis
        using assms(1) Inr None
        by (auto simp: set_nodisplay_override_def e write_text_def w1 Let_def
            ud_def [symmetric] dst_def [symmetric])
    next
      case wn: None
      then show ?thesis
        using assms(1) Inr None
        by (auto simp: set_nodisplay_override_def e write_text_def w1 Let_def
            ud_def [symmetric] dst_def [symmetric])
    qed
  qed
qed





section \<open>The locator\<close>

lemma remdups_drop_later:
  "f \<in> set bs \<Longrightarrow> remdups (as @ f # bs) = remdups (as @ bs)"
  by (induction as) auto

lemma add_unseen_keep_first:
  "distinct paths \<Longrightarrow>
   add_unseen fs (paths, set paths) = (rev (remdups (rev (paths @ fs))), set (paths @ fs))"
proof (induction fs arbitrary: paths)
  case Nil
  then show ?case by (simp add: distinct_remdups_id)
next
  case (Cons f fs)
  show ?case
  proof (cases "f \<in> set paths")
    case True
    then have "insert f (set paths \<union> set fs) = set paths \<union> set fs" by auto
    then show ?thesis
      using True Cons.IH [OF Cons.prems] remdups_drop_later [of f "rev paths" "rev fs"]
      by simp
  next
    case False
    then have d: "distinct (paths @ [f])" using Cons.prems by simp
    show ?thesis using False Cons.IH [OF d] by simp
  qed
qed

lemma scan_dirs_keep_first:
  "distinct paths \<Longrightarrow>
   scan_dirs w ds (paths, set paths) =
     (rev (remdups (rev (paths @ concat (map (glob_desktop w) (filter (path_exists w) ds))))),
      set (paths @ concat (map (glob_desktop w) (filter (path_exists w) ds))))"
proof (induction ds arbitrary: paths)
  case Nil
  then show ?case by (simp add: distinct_remdups_id)
next
  case (Cons d ds)
  show ?case
  proof (cases "path_exists w d")
    case True
    let ?q = "rev (remdups (rev (paths @ glob_desktop w d)))"
    have q: "distinct ?q" "set ?q = set (paths @ glob_desktop w d)" by auto
    have k: "rev (remdups (rev (?q @ xs))) = rev (remdups (rev ((paths @ glob_desktop w d) @ xs)))" for xs
    proof -
      have "remdups (rev xs @ remdups (rev (paths @ glob_desktop w d)))
          = remdups (rev xs @ rev (paths @ glob_desktop w d))"
        by (simp add: remdups_append2)
      then show ?thesis by simp
    qed
    have "scan_dirs w (d # ds) (paths, set paths) = scan_dirs w ds (?q, set ?q)"
      using True add_unseen_keep_first [OF Cons.prems, of "glob_desktop w d"]
      by (simp add: Un_commute)
    also have "\<dots> = (rev (remdups (rev (?q @ concat (map (glob_desktop w) (filter (path_exists w) ds))))),
        set (?q @ concat (map (glob_desktop w) (filter (path_exists w) ds))))"
      by (rule Cons.IH [OF q(1)])
    finally show ?thesis using True k by (simp del: rev_append add: Un_assoc)
  next
    case False
    then show ?thesis using Cons.IH [OF Cons.prems] by simp
  qed
qed

lemma endswith_append: "endswith n s \<Longrightarrow> endswith (d @ n) s"
  by (auto simp: endswith_def)

text \<open>
  The statement "a file reachable from two search roots is listed once" fails: the
  locator compares paths, and the link in the user's directory and its target in the
  system directory are two paths of one file.
\<close>

theorem one_file_two_roots_counterexample:
  "find_desktop_files linked_world =
     [''/home/u/.local/share/applications/gedit.desktop'',
      ''/usr/share/applications/gedit.desktop''] \<and>
   map (file_id linked_world) (find_desktop_files linked_world) = [7, 7]"
  by code_simp

text \<open>
  Claim C5, amended. The locator lists the names ending in \<open>.desktop\<close> of the search
  directories that exist, the user's directories first and the system's after them, each
  under its directory; a directory that does not exist contributes nothing. Of equal
  paths only the first is kept, so no path is listed twice; nothing is said about two
  different paths that lead to one file.
\<close>

theorem find_desktop_files_by_path:
  "find_desktop_files w =
     rev (remdups (rev (concat (map (glob_desktop w)
       (filter (path_exists w) (USER_DIRS w @ SYSTEM_DIRS)))))) \<and>
   distinct (find_desktop_files w) \<and>
   (\<forall>p\<in>set (find_desktop_files w). endswith p ''.desktop'' \<and>
      (\<exists>d\<in>set (USER_DIRS w @ SYSTEM_DIRS). path_exists w d \<and>
         (\<exists>n\<in>set (listdir w d). p = d @ ''/'' @ n)))"
proof -
  have eq: "find_desktop_files w =
     rev (remdups (rev (concat (map (glob_desktop w)
       (filter (path_exists w) (USER_DIRS w @ SYSTEM_DIRS))))))"
    unfolding find_desktop_files_def
    using scan_dirs_keep_first [of "[]" w "USER_DIRS w @ SYSTEM_DIRS"] by simp
  have mem: "endswith p ''.desktop'' \<and>
      (\<exists>d\<in>set (USER_DIRS w @ SYSTEM_DIRS). path_exists w d \<and>
         (\<exists>n\<in>set (listdir w d). p = d @ ''/'' @ n))"
    if "p \<in> set (find_desktop_files w)" for p
  proof -
    from that obtain d where d: "d \<in> set (USER_DIRS w @ SYSTEM_DIRS)" "path_exists w d"
        "p \<in> set (glob_desktop w d)"
      unfolding eq by auto
    then obtain n where n: "n \<in> set (listdir w d)" "endswith n ''.desktop''" "p = d @ ''/'' @ n"
      by (auto simp: glob_desktop_def)
    have "endswith p ''.desktop''"
      using endswith_append [OF n(2), of "d @ ''/''"] n(3) by simp
    then show ?thesis using d n by blast
  qed
  have dist: "distinct (find_desktop_files w)" unfolding eq by simp
  show ?thesis using eq mem dist by blast
qed


text \<open>On the machine with the linked descriptor both paths are listed, the user's first.\<close>

theorem find_desktop_files_by_path_witness:
  "find_desktop_files linked_world =
     [''/home/u/.local/share/applications/gedit.desktop'',
      ''/usr/share/applications/gedit.desktop'']"
proof -
  have "rev (remdups (rev (concat (map (glob_desktop linked_world)
       (filter (path_exists linked_world) (USER_DIRS linked_world @ SYSTEM_DIRS)))))) =
     [''/home/u/.local/share/applications/gedit.desktop'',
      ''/usr/share/applications/gedit.desktop'']"
    by code_simp
  then show ?thesis using find_desktop_files_by_path [of linked_world] by simp
qed

section \<open>The scan and its groups\<close>

lemma parse_desktop_path: "parse_desktop w p = Inr (Some x) \<Longrightarrow> path x = p"
  unfolding parse_desktop_def Let_def
  by (simp split: sum.splits option.splits if_splits prod.splits) auto

lemma read_desktop_path: "read_desktop w p = Some x \<Longrightarrow> path x = p"
  unfolding read_desktop_def
  by (cases "parse_desktop w p") (auto dest: parse_desktop_path)


lemma keep_candidates_mem:
  "x \<in> set (keep_candidates w ps) \<Longrightarrow>
     path x \<in> set ps \<and> read_desktop w (path x) = Some x \<and> mimetypes x \<noteq> []"
proof (induction ps)
  case Nil
  then show ?case by simp
next
  case (Cons p ps)
  show ?case
  proof (cases "read_desktop w p")
    case None
    then show ?thesis using Cons by auto
  next
    case (Some y)
    then have "path y = p" by (rule read_desktop_path)
    then show ?thesis using Cons Some by (cases "mimetypes y = []") auto
  qed
qed

lemma keep_candidates_paths:
  "map path (keep_candidates w ps) =
     filter (\<lambda>p. case read_desktop w p of None \<Rightarrow> False | Some x \<Rightarrow> mimetypes x \<noteq> []) ps"
proof (induction ps)
  case Nil
  then show ?case by simp
next
  case (Cons p ps)
  show ?case
  proof (cases "read_desktop w p")
    case None
    then show ?thesis using Cons by simp
  next
    case (Some y)
    then have "path y = p" by (rule read_desktop_path)
    then show ?thesis using Cons Some by simp
  qed
qed

lemma find_desktop_files_distinct: "distinct (find_desktop_files w)"
  unfolding find_desktop_files_def
  using scan_dirs_keep_first [of "[]" w "USER_DIRS w @ SYSTEM_DIRS"] by simp

lemma load_entries_distinct: "distinct (map path (load_entries w))"
  unfolding load_entries_def keep_candidates_paths
  using find_desktop_files_distinct [of w] by simp

lemma dd_append_keys:
  "map fst (dd_append k x d) = (if k \<in> set (map fst d) then map fst d else map fst d @ [k])"
  by (induction d) (fastforce+)

lemma dd_append_mem:
  "distinct (map fst d) \<Longrightarrow> (k', g) \<in> set (dd_append k x d) \<Longrightarrow>
     (k' \<noteq> k \<and> (k', g) \<in> set d) \<or>
     (k' = k \<and> ((k \<notin> set (map fst d) \<and> g = [x]) \<or> (\<exists>g0. (k, g0) \<in> set d \<and> g = g0 @ [x])))"
proof (induction d)
  case Nil
  then show ?case by auto
next
  case (Cons a d)
  obtain ka ga where a: "a = (ka, ga)" by (cases a)
  show ?case
  proof (cases "ka = k")
    case True
    then show ?thesis using Cons.prems a by (fastforce simp: rev_image_eqI)
  next
    case False
    have d: "distinct (map fst d)" using Cons.prems(1) by simp
    have "(k', g) = (ka, ga) \<or> (k', g) \<in> set (dd_append k x d)"
      using Cons.prems(2) a False by simp
    then show ?thesis
    proof
      assume "(k', g) = (ka, ga)"
      then show ?thesis using a False by auto
    next
      assume "(k', g) \<in> set (dd_append k x d)"
      from Cons.IH [OF d this] show ?thesis using a False by auto
    qed
  qed
qed


lemma group_by_snoc: "group_by key (xs @ [x]) = dd_append (key x) x (group_by key xs)"
  by (simp add: group_by_def)

lemma group_by_spec:
  "distinct (map fst (group_by key xs)) \<and>
   set (map fst (group_by key xs)) = key ` set xs \<and>
   (\<forall>k g. (k, g) \<in> set (group_by key xs) \<longrightarrow> g = filter (\<lambda>x. key x = k) xs \<and> g \<noteq> [])"
proof (induction xs rule: rev_induct)
  case Nil
  then show ?case by (simp add: group_by_def)
next
  case (snoc x xs)
  let ?d = "group_by key xs"
  have d: "distinct (map fst ?d)" and ks: "set (map fst ?d) = key ` set xs"
    and gs: "\<And>k g. (k, g) \<in> set ?d \<Longrightarrow> g = filter (\<lambda>x. key x = k) xs \<and> g \<noteq> []"
    using snoc by blast+
  have 1: "distinct (map fst (group_by key (xs @ [x])))"
    using d by (simp add: group_by_snoc dd_append_keys)
  have 2: "set (map fst (group_by key (xs @ [x]))) = key ` set (xs @ [x])"
    unfolding group_by_snoc dd_append_keys using ks by auto
  have 3: "g = filter (\<lambda>y. key y = k) (xs @ [x]) \<and> g \<noteq> []"
    if m: "(k, g) \<in> set (group_by key (xs @ [x]))" for k g
  proof -
    consider (other) "k \<noteq> key x" "(k, g) \<in> set ?d"
      | (fresh) "k = key x" "key x \<notin> set (map fst ?d)" "g = [x]"
      | (old) g0 where "k = key x" "(key x, g0) \<in> set ?d" "g = g0 @ [x]"
      using dd_append_mem [OF d, of k g "key x" x] m unfolding group_by_snoc by blast
    then show ?thesis
    proof cases
      case other
      then show ?thesis using gs [of k g] by auto
    next
      case fresh
      have "\<forall>y\<in>set xs. key y \<noteq> key x" using fresh(2) ks by (metis imageI)
      then have "filter (\<lambda>y. key y = key x) xs = []" by (simp add: filter_empty_conv)
      then show ?thesis using fresh by simp
    next
      case old
      then show ?thesis using gs [of "key x" g0] by auto
    qed
  qed
  show ?case
  proof (intro conjI allI impI)
    show "distinct (map fst (group_by key (xs @ [x])))" by (rule 1)
    show "set (map fst (group_by key (xs @ [x]))) = key ` set (xs @ [x])" by (rule 2)
    show "g = filter (\<lambda>y. key y = k) (xs @ [x])" "g \<noteq> []"
      if "(k, g) \<in> set (group_by key (xs @ [x]))" for k g
      using 3 [OF that] by blast+
  qed
qed

lemma dup_groups_sub:
  assumes "g \<in> set (dup_name_groups es) \<or> g \<in> set (dup_name_cmd_groups es)"
  shows "(\<exists>P. g = filter P es) \<and> g \<noteq> []"
proof -
  consider k where "(k, g) \<in> set (group_by name_key es)"
    | k where "(k, g) \<in> set (group_by name_cmd_key es)"
    using assms by (auto simp: dup_name_groups_def dup_name_cmd_groups_def)
  then show ?thesis
  proof cases
    case 1
    then have "g = filter (\<lambda>x. name_key x = k) es \<and> g \<noteq> []"
      by (rule group_by_spec [of name_key es, THEN conjunct2, THEN conjunct2, rule_format])
    then show ?thesis by blast
  next
    case 2
    then have "g = filter (\<lambda>x. name_cmd_key x = k) es \<and> g \<noteq> []"
      by (rule group_by_spec [of name_cmd_key es, THEN conjunct2, THEN conjunct2, rule_format])
    then show ?thesis by blast
  qed
qed

lemma dup_name_groups_distinct_paths:
  assumes "grp \<in> set (dup_name_groups (load_entries w))"
  shows "grp \<noteq> [] \<and> distinct (map path grp)"
proof -
  obtain P where "grp = filter P (load_entries w)" "grp \<noteq> []"
    using dup_groups_sub [of grp "load_entries w"] assms by blast
  then show ?thesis using load_entries_distinct [of w] by (simp add: distinct_map_filter)
qed


lemma keep_candidates_skip:
  assumes "read_desktop w p = Some x" "mimetypes x = []"
  shows "keep_candidates w ps = keep_candidates w (removeAll p ps)"
  using assms by (induction ps) (auto split: option.splits)

text \<open>
  Claim C4. When reading a descriptor raises an exception, \<open>read_desktop\<close> returns the
  synthetic entry: broken, with the reason \<open>Parse error:\<close> and the message, and without
  MIME types. \<open>load_entries\<close> drops it, so the loaded entries are those of a machine on
  which the file is not found at all: no loaded entry has its path, nor has any entry of
  the broken list or of a duplicate group of the report, and the count of candidates does
  not include it.
\<close>

theorem parse_error_invisible:
  assumes "parse_desktop w p = Inl e"
  shows "read_desktop w p = Some \<lparr>
           path = p, scope = scope_of w p, name = [], exec_line = [], tryexec = [],
           mimetypes = [], hidden = False, nodisplay = False, entry_type = ''Application'',
           first_cmd = [], provider = ''other'', broken = True,
           reason = ''Parse error: '' @ e \<rparr> \<and>
    keep_candidates w ps = keep_candidates w (removeAll p ps) \<and>
    load_entries w = keep_candidates w (removeAll p (find_desktop_files w)) \<and>
    (\<forall>x\<in>set (load_entries w). path x \<noteq> p) \<and>
    (\<forall>x\<in>set (broken_list (json_payload (load_entries w))). path x \<noteq> p) \<and>
    (\<forall>g\<in>set (dup_by_name (json_payload (load_entries w))) \<union>
           set (dup_by_name_cmd (json_payload (load_entries w))).
       \<forall>x\<in>set g. path x \<noteq> p) \<and>
    total_candidates (json_payload (load_entries w)) =
      length (keep_candidates w (removeAll p (find_desktop_files w)))"
proof -
  let ?x = "\<lparr>path = p, scope = scope_of w p, name = [], exec_line = [], tryexec = [],
           mimetypes = [], hidden = False, nodisplay = False, entry_type = ''Application'',
           first_cmd = [], provider = ''other'', broken = True,
           reason = ''Parse error: '' @ e \<rparr>"
  have r: "read_desktop w p = Some ?x" using assms by (simp add: read_desktop_def)
  have skip: "keep_candidates w qs = keep_candidates w (removeAll p qs)" for qs
    using keep_candidates_skip [OF r] by simp
  have le: "load_entries w = keep_candidates w (removeAll p (find_desktop_files w))"
    unfolding load_entries_def by (rule skip)
  have no: "path x \<noteq> p" if "x \<in> set (load_entries w)" for x
  proof
    assume "path x = p"
    then have "read_desktop w p = Some x" "mimetypes x \<noteq> []"
      using keep_candidates_mem [of x w "find_desktop_files w"] that
      by (auto simp: load_entries_def)
    then show False using r by auto
  qed
  have br: "path x \<noteq> p" if "x \<in> set (broken_list (json_payload (load_entries w)))" for x
    using that no by (auto simp: json_payload_def broken_entries_def)
  have gr: "path x \<noteq> p"
    if "g \<in> set (dup_by_name (json_payload (load_entries w))) \<union>
           set (dup_by_name_cmd (json_payload (load_entries w)))" "x \<in> set g" for g x
  proof -
    have "g \<in> set (dup_name_groups (load_entries w)) \<or>
        g \<in> set (dup_name_cmd_groups (load_entries w))"
      using that(1) by (simp add: json_payload_def)
    then obtain P where "g = filter P (load_entries w)"
      using dup_groups_sub [of g "load_entries w"] by blast
    then show ?thesis using that(2) no by auto
  qed
  have tc: "total_candidates (json_payload (load_entries w)) =
      length (keep_candidates w (removeAll p (find_desktop_files w)))"
    using le by (simp add: json_payload_def)
  show ?thesis using r skip le no br gr tc by blast
qed

text \<open>The rejected descriptor of the example machine is found and then dropped.\<close>

theorem parse_error_invisible_witness:
  "parse_desktop garbled_world ''/usr/share/applications/bad.desktop'' =
     Inl ''File contains no section headers.'' \<and>
   find_desktop_files garbled_world =
     [''/usr/share/applications/bad.desktop'', ''/usr/share/applications/gedit.desktop''] \<and>
   map path (load_entries garbled_world) = [''/usr/share/applications/gedit.desktop''] \<and>
   total_candidates (json_payload (load_entries garbled_world)) = 1"
proof -
  have h: "parse_desktop garbled_world ''/usr/share/applications/bad.desktop'' =
     Inl ''File contains no section headers.''"
    by code_simp
  have f: "find_desktop_files garbled_world =
     [''/usr/share/applications/bad.desktop'', ''/usr/share/applications/gedit.desktop'']"
    by code_simp
  have k: "map path (keep_candidates garbled_world [''/usr/share/applications/gedit.desktop'']) =
     [''/usr/share/applications/gedit.desktop'']"
    by code_simp
  have ra: "removeAll ''/usr/share/applications/bad.desktop'' (find_desktop_files garbled_world) =
      [''/usr/share/applications/gedit.desktop'']"
    unfolding f by simp
  note t = parse_error_invisible [OF h, of "[]"]
  have le: "load_entries garbled_world =
      keep_candidates garbled_world [''/usr/share/applications/gedit.desktop'']"
    using t unfolding ra by blast
  have tc: "total_candidates (json_payload (load_entries garbled_world)) =
      length (keep_candidates garbled_world [''/usr/share/applications/gedit.desktop''])"
    using t unfolding ra by blast
  have "length (keep_candidates garbled_world [''/usr/share/applications/gedit.desktop'']) = 1"
    using k by (metis length_map length_Cons list.size(3) One_nat_def)
  then show ?thesis using h f k le tc by (simp only: simp_thms)
qed

section \<open>Failures while hiding\<close>

lemma steady_refl [simp]: "steady w w"
  by (simp add: steady_def)

lemma steady_trans: "steady w w1 \<Longrightarrow> steady w1 w2 \<Longrightarrow> steady w w2"
  by (simp add: steady_def)

lemma steady_emit:
  "\<not> is_json_report e \<Longrightarrow> steady w (emit e w)"
  by (simp add: steady_def emit_def json_reports_def)

lemma printed_emit:
  "printed (emit e w) = printed w @ (if is_print e then [e] else [])"
  by (simp add: printed_def emit_def)

lemma mkdir_parents_cases:
  "mkdir_parents d w = (r, w') \<Longrightarrow>
     (\<exists>m. mkdir_error w d = Some m \<and> r = Inl m \<and> w' = w) \<or>
     (mkdir_error w d = None \<and> r = Inr () \<and> w' = w\<lparr>dirs := dirs w \<union> set (dir_chain d)\<rparr>)"
  by (auto simp: mkdir_parents_def split: option.splits)

lemma steady_dirs: "steady w (w\<lparr>dirs := ds\<rparr>)"
  by (simp add: steady_def json_reports_def)

lemma steady_files: "steady w (w\<lparr>files := fs\<rparr>)"
  by (simp add: steady_def json_reports_def)

lemma steady_links: "steady w (w\<lparr>links := ls\<rparr>)"
  by (simp add: steady_def json_reports_def)

lemma printed_fields [simp]:
  "printed (w\<lparr>dirs := ds\<rparr>) = printed w" "printed (w\<lparr>files := fs\<rparr>) = printed w"
  "printed (w\<lparr>links := ls\<rparr>) = printed w" "printed (put_file p t w) = printed w"
  by (simp_all add: printed_def put_file_def)

lemma steady_put_file: "steady w (put_file p t w)"
  by (simp add: put_file_def steady_files)

lemma write_text_steady:
  "write_text p t w = (r, w') \<Longrightarrow> steady w w' \<and> printed w' = printed w"
  by (auto simp: write_text_def steady_put_file split: option.splits)

lemma move_steady:
  "move p dst w = (r, w') \<Longrightarrow> steady w w' \<and> printed w' = printed w"
proof (cases "move_error w p")
  case (Some m)
  then show "move p dst w = (r, w') \<Longrightarrow> ?thesis"
    by (auto simp: move_def steady_put_file split: option.splits)
next
  case None
  assume a: "move p dst w = (r, w')"
  have s: "steady w (w\<lparr>links := ls, files := fs\<rparr>)"
    "steady w (w\<lparr>files := fs, links := ls\<rparr>)" for ls fs
    by (simp_all add: steady_def json_reports_def)
  have pr: "printed (w\<lparr>links := ls, files := fs\<rparr>) = printed w"
    "printed (w\<lparr>files := fs, links := ls\<rparr>) = printed w" for ls fs
    by (simp_all add: printed_def)
  show ?thesis
    using a None by (auto simp: move_def s pr steady_dirs split: option.splits)
qed

lemma disable_user_file_steady:
  assumes "disable_user_file p w = (r, w')"
  shows "steady w w' \<and> printed w' = printed w \<and>
     (mkdir_error w (home w @ ''/.local/share/applications/.disabled'') = None \<longrightarrow>
        (\<exists>q. r = Inr q))"
proof (cases "mkdir_error w (home w @ ''/.local/share/applications/.disabled'')")
  case (Some m)
  then show ?thesis
    using assms by (auto simp: disable_user_file_def mkdir_parents_def Let_def)
next
  case None
  let ?dd = "home w @ ''/.local/share/applications/.disabled''"
  let ?w1 = "w\<lparr>dirs := dirs w \<union> set (dir_chain ?dd)\<rparr>"
  have e: "mkdir_parents ?dd w = (Inr (), ?w1)" using None by (simp add: mkdir_parents_def)
  have s1: "steady w ?w1" by (rule steady_dirs)
  show ?thesis
  proof (cases "path_exists ?w1 p")
    case False
    then show ?thesis
      using assms e s1 None by (auto simp: disable_user_file_def Let_def)
  next
    case True
    obtain r2 w2 where m: "move p (path_join ?dd (path_name p)) ?w1 = (r2, w2)"
      by (cases "move p (path_join ?dd (path_name p)) ?w1")
    note ms = move_steady [OF m]
    have s2: "steady w w2" using s1 ms steady_trans by blast
    show ?thesis
    proof (cases r2)
      case (Inl x)
      then have "r = Inr p" "w' = emit (PrintErr (''Failed to move '' @ p @ '': '' @ x)) w2"
        using assms e True m by (auto simp: disable_user_file_def Let_def)
      then show ?thesis
        using steady_trans [OF s2 steady_emit [of "PrintErr (''Failed to move '' @ p @ '': '' @ x)" w2]]
          ms by (simp add: printed_emit)
    next
      case (Inr u)
      then have "r = Inr (path_join ?dd (path_name p))" "w' = w2"
        using assms e True m by (auto simp: disable_user_file_def Let_def)
      then show ?thesis using s2 ms by simp
    qed
  qed
qed

lemma set_nodisplay_override_steady:
  assumes "set_nodisplay_override p w = (r, w')"
  shows "steady w w' \<and> printed w' = printed w \<and>
     (mkdir_error w (home w @ ''/.local/share/applications'') = None \<longrightarrow> (\<exists>q. r = Inr q))"
proof -
  let ?ud = "home w @ ''/.local/share/applications''"
  let ?dst = "path_join ?ud (path_name p)"
  let ?w1 = "w\<lparr>dirs := dirs w \<union> set (dir_chain ?ud)\<rparr>"
  have s1: "steady w ?w1" by (rule steady_dirs)
  have sp: "steady w (put_file ?dst t ?w1)" for t
    using steady_trans [OF s1 steady_put_file] .
  have se: "steady w (emit (PrintErr m) v)" if "steady w v" for m v
    using steady_trans [OF that steady_emit [of "PrintErr m" v]] by simp
  from set_nodisplay_override_cases [OF assms] show ?thesis
  proof (elim disjE exE conjE)
    fix m assume "mkdir_error w ?ud = Some m" "r = Inl m" "w' = w"
    then show ?thesis by simp
  next
    fix e assume "r = Inr p" "w' = emit (PrintErr (''Failed to override '' @ p @ '': '' @ e)) ?w1"
    then show ?thesis using se [OF s1] by (simp add: printed_emit)
  next
    fix c e
    assume "r = Inr p"
      "w' = emit (PrintErr (''Failed to override '' @ p @ '': '' @ e))
               (case write_partial w ?dst of None \<Rightarrow> ?w1 | Some part \<Rightarrow> put_file ?dst part ?w1)"
    then show ?thesis
      using se [OF s1] se [OF sp] by (cases "write_partial w ?dst") (simp_all add: printed_emit)
  next
    fix c
    assume "r = Inr ?dst"
      "w' = put_file ?dst (join [CHR 0x0A] (force_nodisplay (splitlines c)) @ [CHR 0x0A]) ?w1"
    then show ?thesis using sp by simp
  qed
qed

lemma dirs_ok_steady: "steady w w' \<Longrightarrow> dirs_ok w' = dirs_ok w"
  by (simp add: steady_def dirs_ok_def)

lemma hide_entry_steady:
  assumes "hide_entry um sm e w = (r, w')"
  shows "steady w w' \<and>
     (r = Inr () \<longrightarrow> length (printed w') = Suc (length (printed w))) \<and>
     (dirs_ok w \<longrightarrow> r = Inr ())"
proof (cases "scope e = ''user''")
  case True
  obtain r1 w1 where d: "disable_user_file (path e) w = (r1, w1)"
    by (cases "disable_user_file (path e) w")
  note s = disable_user_file_steady [OF d]
  show ?thesis
  proof (cases r1)
    case (Inl m)
    then show ?thesis using assms True d s by (auto simp: hide_entry_def dirs_ok_def)
  next
    case (Inr q)
    then have "r = Inr ()" "w' = emit (Print (um (path e) q)) w1"
      using assms True d by (auto simp: hide_entry_def)
    then show ?thesis
      using s steady_trans [of w w1, OF _ steady_emit [of "Print (um (path e) q)" w1]]
      by (simp add: printed_emit)
  qed
next
  case False
  obtain r1 w1 where d: "set_nodisplay_override (path e) w = (r1, w1)"
    by (cases "set_nodisplay_override (path e) w")
  note s = set_nodisplay_override_steady [OF d]
  show ?thesis
  proof (cases r1)
    case (Inl m)
    then show ?thesis using assms False d s by (auto simp: hide_entry_def dirs_ok_def)
  next
    case (Inr q)
    then have "r = Inr ()" "w' = emit (Print (sm q)) w1"
      using assms False d by (auto simp: hide_entry_def)
    then show ?thesis
      using s steady_trans [of w w1, OF _ steady_emit [of "Print (sm q)" w1]]
      by (simp add: printed_emit)
  qed
qed

lemma fix_broken_loop_steady:
  "fix_broken_loop es w = (r, w') \<Longrightarrow>
     steady w w' \<and>
     (r = Inr () \<longrightarrow> length (printed w') = length (printed w) + length es) \<and>
     (dirs_ok w \<longrightarrow> r = Inr ())"
proof (induction es arbitrary: w)
  case Nil
  then show ?case by auto
next
  case (Cons e es)
  let ?h = "hide_entry msg_disabled_entry msg_shadowed_entry e w"
  obtain r1 w1 where h: "?h = (r1, w1)" by (cases ?h)
  note s = hide_entry_steady [OF h]
  show ?case
  proof (cases r1)
    case (Inl m)
    then show ?thesis using Cons.prems h s by auto
  next
    case (Inr u)
    then have rest: "fix_broken_loop es w1 = (r, w')" using Cons.prems h by simp
    have r1: "r1 = Inr ()" using Inr by simp
    show ?thesis
      using Cons.IH [OF rest] s r1 steady_trans [of w w1 w'] dirs_ok_steady [of w w1] by auto
  qed
qed

lemma hide_others_steady:
  "hide_others km keep es w = (r, w') \<Longrightarrow>
     steady w w' \<and>
     (r = Inr () \<longrightarrow> length (printed w') = length (printed w) + length es) \<and>
     (dirs_ok w \<longrightarrow> r = Inr ())"
proof (induction es arbitrary: w)
  case Nil
  then show ?case by auto
next
  case (Cons e es)
  show ?case
  proof (cases "e = keep")
    case True
    then have rest: "hide_others km keep es (emit (Print (km e)) w) = (r, w')"
      using Cons.prems by simp
    have s: "steady w (emit (Print (km e)) w)" by (simp add: steady_emit)
    show ?thesis
      using Cons.IH [OF rest] s steady_trans [OF s] dirs_ok_steady [OF s]
      by (auto simp: printed_emit)
  next
    case False
    let ?h = "hide_entry msg_disabled_duplicate msg_shadowed_duplicate e w"
    obtain r1 w1 where h: "?h = (r1, w1)" by (cases ?h)
    note s = hide_entry_steady [OF h]
    show ?thesis
    proof (cases r1)
      case (Inl m)
      then show ?thesis using Cons.prems h s False by auto
    next
      case (Inr u)
      then have rest: "hide_others km keep es w1 = (r, w')" using Cons.prems h False by simp
      have r1: "r1 = Inr ()" using Inr by simp
      show ?thesis
        using Cons.IH [OF rest] s r1 steady_trans [of w w1 w'] dirs_ok_steady [of w w1] by auto
    qed
  qed
qed


lemma keep_by_name_None: "keep_by_name pref grp = None \<longleftrightarrow> grp = []"
  by (cases grp) (simp_all add: keep_by_name_def)

lemma keep_by_name_cmd_None: "keep_by_name_cmd grp = None \<longleftrightarrow> grp = []"
  by (cases grp) (auto simp: keep_by_name_cmd_def split: list.splits)

lemma hide_by_name_steady:
  "hide_by_name pref grps w = (r, w') \<Longrightarrow>
     steady w w' \<and>
     (r = Inr () \<longrightarrow> length (printed w') = length (printed w) + length (concat grps)) \<and>
     (dirs_ok w \<and> [] \<notin> set grps \<longrightarrow> r = Inr ())"
proof (induction grps arbitrary: w)
  case Nil
  then show ?case by auto
next
  case (Cons grp grps)
  show ?case
  proof (cases "keep_by_name pref grp")
    case None
    then show ?thesis using Cons.prems keep_by_name_None [of pref grp] by auto
  next
    case (Some keep)
    obtain r1 w1 where h: "hide_others msg_keeping_by_name keep grp w = (r1, w1)"
      by (cases "hide_others msg_keeping_by_name keep grp w")
    note s = hide_others_steady [OF h]
    show ?thesis
    proof (cases r1)
      case (Inl m)
      then show ?thesis using Cons.prems Some h s by auto
    next
      case (Inr u)
      then have rest: "hide_by_name pref grps w1 = (r, w')" using Cons.prems Some h by simp
      have r1: "r1 = Inr ()" using Inr by simp
      show ?thesis
        using Cons.IH [OF rest] s r1 steady_trans [of w w1 w'] dirs_ok_steady [of w w1] by auto
    qed
  qed
qed

lemma hide_by_name_cmd_steady:
  "hide_by_name_cmd grps w = (r, w') \<Longrightarrow>
     steady w w' \<and>
     (r = Inr () \<longrightarrow> length (printed w') = length (printed w) + length (concat grps)) \<and>
     (dirs_ok w \<and> [] \<notin> set grps \<longrightarrow> r = Inr ())"
proof (induction grps arbitrary: w)
  case Nil
  then show ?case by auto
next
  case (Cons grp grps)
  show ?case
  proof (cases "keep_by_name_cmd grp")
    case None
    then show ?thesis using Cons.prems keep_by_name_cmd_None [of grp] by auto
  next
    case (Some keep)
    obtain r1 w1 where h: "hide_others msg_keeping_by_name_cmd keep grp w = (r1, w1)"
      by (cases "hide_others msg_keeping_by_name_cmd keep grp w")
    note s = hide_others_steady [OF h]
    show ?thesis
    proof (cases r1)
      case (Inl m)
      then show ?thesis using Cons.prems Some h s by auto
    next
      case (Inr u)
      then have rest: "hide_by_name_cmd grps w1 = (r, w')" using Cons.prems Some h by simp
      have r1: "r1 = Inr ()" using Inr by simp
      show ?thesis
        using Cons.IH [OF rest] s r1 steady_trans [of w w1 w'] dirs_ok_steady [of w w1] by auto
    qed
  qed
qed

lemma dup_groups_nonempty:
  "[] \<notin> set (dup_name_groups es)" "[] \<notin> set (dup_name_cmd_groups es)"
  using dup_groups_sub [of "[]" es] by auto

lemma fix_broken_phase_steady:
  assumes "fix_broken_phase a es w = (r, w')"
  shows "steady w w' \<and> (dirs_ok w \<longrightarrow> r = Inr ())"
proof (cases "fix_broken a")
  case False
  then show ?thesis using assms by (auto simp: fix_broken_phase_def)
next
  case True
  let ?w0 = "emit (Print (CHR 0x0A # ''Hiding/Disabling broken entries...'')) w"
  have s: "steady w ?w0" by (simp add: steady_emit)
  have "fix_broken_loop (broken_entries es) ?w0 = (r, w')"
    using assms True by (simp add: fix_broken_phase_def)
  from fix_broken_loop_steady [OF this] show ?thesis
    using steady_trans [OF s] dirs_ok_steady [OF s] by auto
qed

lemma hide_duplicates_phase_steady:
  assumes "hide_duplicates_phase a es w = (r, w')"
  shows "steady w w' \<and> (dirs_ok w \<longrightarrow> r = Inr ())"
proof (cases "hide_duplicates a")
  case False
  then show ?thesis using assms by (auto simp: hide_duplicates_phase_def)
next
  case True
  let ?w0 = "emit (Print (CHR 0x0A # ''Hiding redundant duplicates...'')) w"
  have s0: "steady w ?w0" by (simp add: steady_emit)
  let ?first = "if strategy a \<in> {''name'', ''auto''}
               then hide_by_name (prefer a) (dup_name_groups es) ?w0 else (Inr (), ?w0)"
  obtain r1 w1 where f: "?first = (r1, w1)" by (cases ?first)
  have s1: "steady ?w0 w1 \<and> (dirs_ok ?w0 \<longrightarrow> r1 = Inr ())"
    using f hide_by_name_steady [of "prefer a" "dup_name_groups es" ?w0 r1 w1]
      dup_groups_nonempty(1) [of es]
    by (auto split: if_splits)
  have run: "and_then (r1, w1) (\<lambda>w'. if strategy a \<in> {''name+cmd'', ''auto''}
                    then hide_by_name_cmd (dup_name_cmd_groups es) w'
                    else (Inr (), w')) = (r, w')"
    using assms True f by (simp add: hide_duplicates_phase_def Let_def)
  show ?thesis
  proof (cases r1)
    case (Inl m)
    then show ?thesis
      using run s1 steady_trans [OF s0] dirs_ok_steady [OF s0] by (auto simp: and_then_def)
  next
    case (Inr u)
    then have 2: "(if strategy a \<in> {''name+cmd'', ''auto''}
                    then hide_by_name_cmd (dup_name_cmd_groups es) w1
                    else (Inr (), w1)) = (r, w')"
      using run by (simp add: and_then_def)
    have s2: "steady w1 w' \<and> (dirs_ok w1 \<longrightarrow> r = Inr ())"
      using 2 hide_by_name_cmd_steady [of "dup_name_cmd_groups es" w1 r w']
        dup_groups_nonempty(2) [of es]
      by (auto split: if_splits)
    have "steady w w1" using s0 s1 steady_trans by blast
    then show ?thesis
      using s2 steady_trans [of w w1 w'] dirs_ok_steady [of w w1] by auto
  qed
qed







text \<open>
  The directories are created before the \<open>try\<close>: when that fails, the exception leaves
  the function.
\<close>

lemma mkdir_failure_propagates:
  "mkdir_error w (home w @ ''/.local/share/applications/.disabled'') = Some m \<Longrightarrow>
     disable_user_file p w = (Inl m, w)"
  "mkdir_error w (home w @ ''/.local/share/applications'') = Some m \<Longrightarrow>
     set_nodisplay_override p w = (Inl m, w)"
  by (simp_all add: disable_user_file_def set_nodisplay_override_def ensure_user_dir_def
      mkdir_parents_def Let_def)




section \<open>The JSON report\<close>

lemma steady_print_lines: "steady w (print_lines ls w)"
  by (auto simp: steady_def print_lines_def json_reports_def filter_empty_conv)

lemma clean_mimeapps_steady:
  assumes "clean_mimeapps p ex w = (r, w')"
  shows "steady w w'"
proof (cases "path_exists w p")
  case False
  then show ?thesis using assms by (simp add: clean_mimeapps_def)
next
  case True
  show ?thesis
  proof (cases "read_text p w")
    case (Inl e)
    then show ?thesis using assms True by (simp add: clean_mimeapps_def)
  next
    case content: (Inr content)
    show ?thesis
    proof (cases "cfg_read content")
      case (Inl e)
      then show ?thesis using assms True content by (simp add: clean_mimeapps_def)
    next
      case cfg: (Inr cfg)
      let ?c = "clean_sections ex [''Added Associations'', ''Default Applications'']
          (cfg, False, 0, 0)"
      show ?thesis
      proof (cases ?c)
        case (Inl e)
        then show ?thesis using assms True content cfg by (simp add: clean_mimeapps_def)
      next
        case (Inr st)
        obtain cfg' changed d m where st: "st = (cfg', changed, d, m)" by (cases st) auto
        show ?thesis
        proof (cases changed)
          case False
          then show ?thesis
            using assms True content cfg Inr st by (simp add: clean_mimeapps_def)
        next
          case ch: True
          show ?thesis
          proof -
            obtain r2 w2 where w2: "write_text p (cfg_write cfg') w = (r2, w2)"
              by (cases "write_text p (cfg_write cfg') w")
            then have "w' = w2"
              using assms True content cfg Inr st ch
              by (cases r2) (simp_all add: clean_mimeapps_def)
            then show ?thesis using write_text_steady [OF w2] by simp
          qed
        qed
      qed
    qed
  qed
qed

lemma fix_mimeapps_phase_steady:
  assumes "fix_mimeapps_phase a es w = (r, w')"
  shows "steady w w'"
proof (cases "fix_mimeapps a")
  case False
  then show ?thesis using assms by (auto simp: fix_mimeapps_phase_def)
next
  case True
  let ?c = "clean_mimeapps (home w @ ''/.config/mimeapps.list'') (map (\<lambda>e. path_name (path e)) es) w"
  obtain r1 w1 where c: "?c = (r1, w1)" by (cases ?c)
  note s = clean_mimeapps_steady [OF c]
  show ?thesis
  proof (cases r1)
    case (Inl m)
    then show ?thesis using assms True c s by (simp add: fix_mimeapps_phase_def)
  next
    case (Inr counts)
    obtain d m where "counts = (d, m)" by (cases counts)
    then have "w' = emit (Print (CHR 0x0A # ''Cleaned mimeapps.list: removed '' @ str_nat d
                @ '' duplicate refs, '' @ str_nat m @ '' missing refs'')) w1"
      using assms True c Inr by (simp add: fix_mimeapps_phase_def)
    then show ?thesis using s steady_trans [OF s steady_emit] by simp
  qed
qed

lemma ensure_user_dir_steady: "ensure_user_dir w = (r, w') \<Longrightarrow> steady w w'"
  by (auto simp: ensure_user_dir_def mkdir_parents_def Let_def steady_dirs split: option.splits)

lemma refresh_phase_steady:
  assumes "refresh_phase a w = (r, w')"
  shows "steady w w'"
proof (cases "fix_broken a \<or> hide_duplicates a \<or> fix_mimeapps a")
  case False
  then show ?thesis using assms by (auto simp: refresh_phase_def)
next
  case True
  obtain r1 w1 where e: "ensure_user_dir w = (r1, w1)" by (cases "ensure_user_dir w")
  note s = ensure_user_dir_steady [OF e]
  let ?w2 = "case r1 of Inl m \<Rightarrow> w1 | Inr ud \<Rightarrow> emit (Spawn [''update-desktop-database'', ud]) w1"
  have s2: "steady w ?w2"
    using s steady_trans [OF s steady_emit] by (cases r1) auto
  have "w' = print_lines
               [CHR 0x0A # ''Done. You may need to restart xdg-desktop-portal (or log out/in) for menus to refresh:'',
                ''  systemctl --user restart xdg-desktop-portal xdg-desktop-portal-gtk || true'']
               ?w2"
    using assms True e by (cases r1) (auto simp: refresh_phase_def Let_def)
  then show ?thesis using steady_trans [OF s2 steady_print_lines] by simp
qed


lemma and_then_json:
  assumes "\<And>w r w'. f w = (r, w') \<Longrightarrow> steady w w'"
  shows "json_reports (snd (and_then (x, w1) f)) = json_reports w1"
proof (cases x)
  case (Inl m)
  then show ?thesis by (simp add: and_then_def)
next
  case (Inr u)
  obtain r w' where f: "f w1 = (r, w')" by (cases "f w1")
  then show ?thesis using assms [OF f] Inr by (simp add: and_then_def steady_def)
qed

lemma report_phase_steady: "report_phase a es w = (r, w') \<Longrightarrow> r = Inr () \<and> steady w w'"
  by (auto simp: report_phase_def steady_print_lines split: if_splits)

lemma json_phase_reports:
  assumes "json_phase dumps a es w = (r, w')"
  shows "json_reports w' = json_reports w @
     (case json a of
        None \<Rightarrow> []
      | Some jp \<Rightarrow>
          if jp \<noteq> [] \<and> write_error w jp = None
          then [JsonReport jp (dumps (json_payload es))] else [])"
proof (cases "json a")
  case None
  then show ?thesis using assms by (simp add: json_phase_def)
next
  case (Some jp)
  show ?thesis
  proof (cases "jp = []")
    case True
    then show ?thesis using assms Some by (simp add: json_phase_def)
  next
    case False
    show ?thesis
    proof (cases "write_error w jp")
      case None
      then show ?thesis
        using assms Some False
        by (auto simp: json_phase_def write_text_def emit_def json_reports_def put_file_def)
    next
      case (Some m)
      then show ?thesis
        using assms \<open>json a = Some jp\<close> False
        by (auto simp: json_phase_def write_text_def json_reports_def put_file_def
            split: option.splits)
    qed
  qed
qed

lemma main_json_reports:
  "json_reports (snd (main dumps a w)) =
     json_reports w @
     (case json a of
        None \<Rightarrow> []
      | Some jp \<Rightarrow>
          if jp \<noteq> [] \<and> write_error w jp = None
          then [JsonReport jp (dumps (json_payload (load_entries w)))] else [])"
  (is "_ = _ @ ?j")
proof -
  let ?es = "load_entries w"
  obtain r1 w1 where p1: "report_phase a ?es w = (r1, w1)" by (cases "report_phase a ?es w")
  then have r1: "r1 = Inr ()" and s1: "steady w w1" using report_phase_steady by blast+
  obtain r2 w2 where p2: "json_phase dumps a ?es w1 = (r2, w2)"
    by (cases "json_phase dumps a ?es w1")
  have j2: "json_reports w2 = json_reports w @ ?j"
    using json_phase_reports [OF p2] s1
    by (auto simp: steady_def split: option.splits)
  have a12: "and_then (report_phase a ?es w) (json_phase dumps a ?es) = (r2, w2)"
    using p1 r1 p2 by (simp add: and_then_def)
  have "json_reports (snd (main dumps a w)) = json_reports w2"
    unfolding main_def Let_def a12
  proof -
    let ?t3 = "and_then (r2, w2) (fix_broken_phase a ?es)"
    let ?t4 = "and_then ?t3 (hide_duplicates_phase a ?es)"
    let ?t5 = "and_then ?t4 (fix_mimeapps_phase a ?es)"
    let ?t6 = "and_then ?t5 (refresh_phase a)"
    have 3: "json_reports (snd ?t3) = json_reports w2"
      by (rule and_then_json) (use fix_broken_phase_steady in blast)
    have 4: "json_reports (snd ?t4) = json_reports (snd ?t3)"
      using and_then_json [of "hide_duplicates_phase a ?es" "fst ?t3" "snd ?t3"]
        hide_duplicates_phase_steady by (metis prod.collapse)
    have 5: "json_reports (snd ?t5) = json_reports (snd ?t4)"
      using and_then_json [of "fix_mimeapps_phase a ?es" "fst ?t4" "snd ?t4"]
        fix_mimeapps_phase_steady by (metis prod.collapse)
    have 6: "json_reports (snd ?t6) = json_reports (snd ?t5)"
      using and_then_json [of "refresh_phase a" "fst ?t5" "snd ?t5"]
        refresh_phase_steady by (metis prod.collapse)
    show "json_reports (snd ?t6) = json_reports w2" using 3 4 5 6 by simp
  qed
  then show ?thesis using j2 by simp
qed

text \<open>
  Claim C10. The JSON reports a run writes are: none without a \<open>--json\<close> path or when
  the write fails, and otherwise one, to that path, of the payload computed from the
  entries loaded at the start. The flags \<open>--scan\<close>, \<open>--fix-broken\<close>, \<open>--hide-duplicates\<close>,
  \<open>--strategy\<close>, \<open>--prefer\<close> and \<open>--fix-mimeapps\<close> have no part in it: two runs from the
  same machine with the same \<open>--json\<close> path write the same report.
\<close>

theorem json_report_ignores_flags:
  "json_reports (snd (main dumps a w)) =
     json_reports w @
     (case json a of
        None \<Rightarrow> []
      | Some jp \<Rightarrow>
          if jp \<noteq> [] \<and> write_error w jp = None
          then [JsonReport jp (dumps (json_payload (load_entries w)))] else []) \<and>
   (json a = json b \<longrightarrow>
      json_reports (snd (main dumps a w)) = json_reports (snd (main dumps b w)))"
  using main_json_reports [of dumps a w] main_json_reports [of dumps b w]
  by simp


text \<open>A report-only run and a repairing run on the example machine.\<close>

theorem json_report_ignores_flags_witness:
  "json report_args = json repair_args \<and>
   load_entries busy_world = [mine_entry, old_entry] \<and>
   (\<forall>dumps.
      json_reports (snd (main dumps report_args busy_world)) =
        [JsonReport ''/tmp/report.json'' (dumps (json_payload [mine_entry, old_entry]))] \<and>
      json_reports (snd (main dumps repair_args busy_world)) =
        [JsonReport ''/tmp/report.json'' (dumps (json_payload [mine_entry, old_entry]))])"
proof -
  have j: "json report_args = Some ''/tmp/report.json''" "json repair_args = Some ''/tmp/report.json''"
    by (simp_all add: report_args_def repair_args_def)
  have le: "load_entries busy_world = [mine_entry, old_entry]" by code_simp
  have w: "write_error busy_world ''/tmp/report.json'' = None" "json_reports busy_world = []"
    by code_simp+
  show ?thesis
    using json_report_ignores_flags [of _ report_args busy_world repair_args]
      json_report_ignores_flags [of _ repair_args busy_world report_args] j le w
    by simp
qed

section \<open>The association file: the round trip\<close>

lemma items_example:
  "filter (\<lambda>x. x \<noteq> []) (split_on CHR '';'' ''a.desktop;missing.desktop;a.desktop;'') =
     [''a.desktop'', ''missing.desktop'', ''a.desktop'']"
  by code_simp

lemma clean_value_example:
  assumes "''a.desktop'' \<in> set existing" "''missing.desktop'' \<notin> set existing"
  shows "clean_value existing ''a.desktop;missing.desktop;a.desktop;'' (d, m) =
     (''a.desktop;'', Suc d, Suc m)"
  using assms unfolding clean_value_def Let_def items_example by simp

lemma read_example:
  "cfg_read ''[Added Associations]\<newline>text/plain=a.desktop;missing.desktop;a.desktop;\<newline>'' =
     Inr \<lparr>defaults = [],
          sections = [(''Added Associations'',
            [(''text/plain'', ''a.desktop;missing.desktop;a.desktop;'')])]\<rparr>"
  by code_simp

lemma write_example:
  "cfg_write \<lparr>defaults = [],
          sections = [(''Added Associations'', [(''text/plain'', ''a.desktop;'')])]\<rparr> =
     ''[Added Associations]\<newline>text/plain = a.desktop;\<newline>\<newline>''"
  by code_simp

lemma clean_sections_one_key:
  assumes "''a.desktop'' \<in> set existing" "''missing.desktop'' \<notin> set existing"
    and "sect = ''Added Associations'' \<or> sect = ''Default Applications''"
  shows "clean_sections existing [''Added Associations'', ''Default Applications'']
      (\<lparr>defaults = [],
          sections = [(sect, [(k, ''a.desktop;missing.desktop;a.desktop;'')])]\<rparr>, False, 0, 0) =
     Inr (\<lparr>defaults = [], sections = [(sect, [(k, ''a.desktop;'')])]\<rparr>, True, 1, 1)"
  using assms(3)
  by (auto simp: cfg_keys_def cfg_get_def cfg_set_def clean_value_example [OF assms(1,2)])

lemma clean_sections_example:
  assumes "''a.desktop'' \<in> set existing" "''missing.desktop'' \<notin> set existing"
  shows "clean_sections existing [''Added Associations'', ''Default Applications'']
      (\<lparr>defaults = [],
          sections = [(''Added Associations'',
            [(''text/plain'', ''a.desktop;missing.desktop;a.desktop;'')])]\<rparr>, False, 0, 0) =
     Inr (\<lparr>defaults = [],
          sections = [(''Added Associations'', [(''text/plain'', ''a.desktop;'')])]\<rparr>,
          True, 1, 1)"
  using assms by (intro clean_sections_one_key) simp_all

text \<open>
  Claim C6. Where \<open>a.desktop\<close> is among the discovered descriptor names and
  \<open>missing.desktop\<close> is not, the value \<open>a.desktop;missing.desktop;a.desktop;\<close> is cleaned
  to \<open>a.desktop;\<close> with one more duplicate and one more missing reference counted, and
  so it is under any key of either section of a configuration, with the counts \<open>(1, 1)\<close>
  and the configuration marked as changed; on an association file holding that value
  under \<open>text/plain\<close> in \<open>[Added Associations]\<close>, \<open>clean_mimeapps\<close> returns \<open>(1, 1)\<close> and
  rewrites the file, which then reads back with the value \<open>a.desktop;\<close>.
\<close>

theorem clean_mimeapps_round_trip:
  assumes "''a.desktop'' \<in> set existing" and "''missing.desktop'' \<notin> set existing"
    and "files w (resolve w p) =
      Some ''[Added Associations]\<newline>text/plain=a.desktop;missing.desktop;a.desktop;\<newline>''"
    and "read_error w p = None" and "write_error w p = None"
    and "sect = ''Added Associations'' \<or> sect = ''Default Applications''"
  shows "clean_value existing ''a.desktop;missing.desktop;a.desktop;'' (d, m) =
           (''a.desktop;'', Suc d, Suc m) \<and>
         clean_sections existing [''Added Associations'', ''Default Applications'']
           (\<lparr>defaults = [],
              sections = [(sect, [(k, ''a.desktop;missing.desktop;a.desktop;'')])]\<rparr>,
            False, 0, 0) =
           Inr (\<lparr>defaults = [], sections = [(sect, [(k, ''a.desktop;'')])]\<rparr>, True, 1, 1) \<and>
         clean_mimeapps p existing w =
           (Inr (1, 1),
            put_file p ''[Added Associations]\<newline>text/plain = a.desktop;\<newline>\<newline>'' w) \<and>
         cfg_read ''[Added Associations]\<newline>text/plain = a.desktop;\<newline>\<newline>'' =
           Inr \<lparr>defaults = [],
                sections = [(''Added Associations'', [(''text/plain'', ''a.desktop;'')])]\<rparr>"
proof -
  have ex: "path_exists w p" using assms(3) by (simp add: path_exists_def)
  have rd: "read_text p w =
      Inr ''[Added Associations]\<newline>text/plain=a.desktop;missing.desktop;a.desktop;\<newline>''"
    using assms(3,4) by (simp add: read_text_def)
  have "clean_mimeapps p existing w =
           (Inr (1, 1),
            put_file p ''[Added Associations]\<newline>text/plain = a.desktop;\<newline>\<newline>'' w)"
    unfolding clean_mimeapps_def
    using ex rd assms(5)
    by (simp add: read_example clean_sections_example [OF assms(1,2)] write_example
        write_text_def del: clean_sections.simps)
  moreover have "cfg_read ''[Added Associations]\<newline>text/plain = a.desktop;\<newline>\<newline>'' =
           Inr \<lparr>defaults = [],
                sections = [(''Added Associations'', [(''text/plain'', ''a.desktop;'')])]\<rparr>"
    by code_simp
  ultimately show ?thesis
    using clean_value_example [OF assms(1,2)] clean_sections_one_key [OF assms(1,2,6)]
    by (simp del: clean_sections.simps)
qed

text \<open>The association file of the example machine, with only \<open>a.desktop\<close> discovered.\<close>

theorem clean_mimeapps_round_trip_witness:
  "clean_value [''a.desktop''] ''a.desktop;missing.desktop;a.desktop;'' (0, 0) =
     (''a.desktop;'', 1, 1) \<and>
   clean_sections [''a.desktop''] [''Added Associations'', ''Default Applications'']
     (\<lparr>defaults = [],
        sections = [(''Default Applications'',
          [(''text/html'', ''a.desktop;missing.desktop;a.desktop;'')])]\<rparr>, False, 0, 0) =
     Inr (\<lparr>defaults = [],
            sections = [(''Default Applications'', [(''text/html'', ''a.desktop;'')])]\<rparr>,
          True, 1, 1) \<and>
   clean_mimeapps ''/home/u/.config/mimeapps.list'' [''a.desktop''] assoc_world =
     (Inr (1, 1),
      put_file ''/home/u/.config/mimeapps.list''
        ''[Added Associations]\<newline>text/plain = a.desktop;\<newline>\<newline>'' assoc_world)"
proof -
  have f: "files assoc_world (resolve assoc_world ''/home/u/.config/mimeapps.list'') =
      Some ''[Added Associations]\<newline>text/plain=a.desktop;missing.desktop;a.desktop;\<newline>''"
    by (simp add: assoc_world_def plain_world_def resolve_def)
  have r: "read_error assoc_world ''/home/u/.config/mimeapps.list'' = None"
    and w: "write_error assoc_world ''/home/u/.config/mimeapps.list'' = None"
    by (simp_all add: assoc_world_def plain_world_def)
  have a: "''a.desktop'' \<in> set [''a.desktop'']" and b: "''missing.desktop'' \<notin> set [''a.desktop'']"
    by simp_all
  have s: "''Default Applications'' = ''Added Associations'' \<or>
      ''Default Applications'' = ''Default Applications''"
    by simp
  show ?thesis
    using clean_mimeapps_round_trip [OF a b f r w s, of 0 0 "''text/html''"]
    by (simp del: clean_sections.simps)
qed

section \<open>The association file: a second pass\<close>

lemma split_on_no_sep: "x \<in> set (split_on c v) \<Longrightarrow> c \<notin> set x"
  by (induction v arbitrary: x) (auto split: if_splits list.splits)

lemma split_on_nonempty [simp]: "split_on c v \<noteq> []"
  by (induction v) (auto split: list.splits)

lemma split_on_word: "c \<notin> set x \<Longrightarrow> split_on c (x @ c # rest) = x # split_on c rest"
  by (induction x) (auto split: list.splits)

lemma split_on_plain: "c \<notin> set x \<Longrightarrow> split_on c x = [x]"
  by (induction x) (auto split: list.splits)

lemma join_snoc_sep:
  "join sep (x # xs) @ sep = x @ sep @ (if xs = [] then [] else join sep xs @ sep)"
  by (cases xs) simp_all

lemma items_word:
  "CHR '';'' \<notin> set x \<Longrightarrow> x \<noteq> [] \<Longrightarrow> value_items (x @ CHR '';'' # rest) = x # value_items rest"
  by (simp add: value_items_def split_on_word)

lemma items_Nil [simp]: "value_items [] = []"
  by (simp add: value_items_def)

lemma items_join:
  assumes "\<forall>x\<in>set new. x \<noteq> [] \<and> CHR '';'' \<notin> set x"
  shows "value_items (join '';'' new @ (if new \<noteq> [] then '';'' else [])) = new"
  using assms
proof (induction new)
  case Nil
  then show ?case by simp
next
  case (Cons x xs)
  have "join '';'' (x # xs) @ '';'' = x @ CHR '';'' # (if xs = [] then [] else join '';'' xs @ '';'')"
    using join_snoc_sep [of "'';''" x xs] by simp
  moreover have "value_items (if xs = [] then [] else join '';'' xs @ '';'') = xs"
    using Cons by (cases "xs = []") simp_all
  ultimately show ?case using Cons.prems by (simp add: items_word)
qed

lemma items_elems: "x \<in> set (value_items v) \<Longrightarrow> x \<noteq> [] \<and> CHR '';'' \<notin> set x"
  by (auto simp: value_items_def dest: split_on_no_sep)

text \<open>The loop over the items.\<close>

lemma clean_items_spec:
  assumes "clean_items ex its (new, seen, d, m) = (new', seen', d', m')"
    and "seen = set new" and "distinct new" and "set new \<subseteq> set ex"
  shows "seen' = set new' \<and> distinct new' \<and> set new' \<subseteq> set ex \<and>
     set new' \<subseteq> set new \<union> set its"
  using assms
proof (induction its arbitrary: new seen d m)
  case Nil
  then show ?case by auto
next
  case (Cons it its)
  show ?case
  proof (cases "it \<notin> set ex")
    case True
    then have "clean_items ex its (new, seen, d, Suc m) = (new', seen', d', m')"
      using Cons.prems(1) by simp
    from Cons.IH [OF this Cons.prems(2-4)] show ?thesis by auto
  next
    case False
    show ?thesis
    proof (cases "it \<in> seen")
      case True
      then have "clean_items ex its (new, seen, Suc d, m) = (new', seen', d', m')"
        using Cons.prems(1) False by simp
      from Cons.IH [OF this Cons.prems(2-4)] show ?thesis by auto
    next
      case nseen: False
      then have r: "clean_items ex its (new @ [it], insert it seen, d, m) = (new', seen', d', m')"
        using Cons.prems(1) False by simp
      have "insert it seen = set (new @ [it])" "distinct (new @ [it])"
        "set (new @ [it]) \<subseteq> set ex"
        using Cons.prems(2-4) nseen False by auto
      from Cons.IH [OF r this] show ?thesis by auto
    qed
  qed
qed

lemma clean_items_fixed:
  assumes "distinct its" and "set its \<subseteq> set ex" and "set its \<inter> set new = {}"
    and "seen = set new"
  shows "clean_items ex its (new, seen, d, m) = (new @ its, set (new @ its), d, m)"
  using assms
proof (induction its arbitrary: new seen)
  case Nil
  then show ?case by simp
next
  case (Cons it its)
  have 1: "it \<in> set ex" "it \<notin> seen" using Cons.prems by auto
  have "clean_items ex its (new @ [it], insert it seen, d, m) =
      ((new @ [it]) @ its, set ((new @ [it]) @ its), d, m)"
    using Cons.prems by (intro Cons.IH) auto
  then show ?case using 1 by simp
qed

lemma clean_value_clean:
  assumes "clean_value ex val (d, m) = (nv, d', m')"
  shows "clean_val ex nv"
proof -
  obtain new seen where ci: "clean_items ex (value_items val) ([], {}, d, m) = (new, seen, d', m')"
      and nv: "nv = join '';'' new @ (if new \<noteq> [] then '';'' else [])"
    using assms by (auto simp: clean_value_def value_items_def Let_def split: prod.splits)
  have sp: "distinct new" "set new \<subseteq> set ex" "set new \<subseteq> set (value_items val)"
    using clean_items_spec [OF ci] by auto
  have el: "\<forall>x\<in>set new. x \<noteq> [] \<and> CHR '';'' \<notin> set x"
    using sp(3) items_elems by blast
  have it: "value_items nv = new" unfolding nv by (rule items_join [OF el])
  have "clean_value ex nv (a, b) = (nv, a, b)" for a b
  proof -
    have "clean_items ex new ([], {}, a, b) = (new, set new, a, b)"
      using clean_items_fixed [of new ex "[]" "{}" a b] sp by simp
    then show ?thesis
      using it nv by (simp add: clean_value_def value_items_def [symmetric] Let_def)
  qed
  then show ?thesis by (simp add: clean_val_def)
qed

text \<open>The configuration under \<open>cfg_set\<close>.\<close>

lemma map_of_in_section:
  "map_of (map (\<lambda>(n, opts). if n = sect then (n, f opts) else (n, opts)) xs) s =
     (if s = sect then map_option f (map_of xs s) else map_of xs s)"
  by (induction xs) auto

lemma map_of_dict_set: "map_of (dict_set k v opts) k' = (if k' = k then Some v else map_of opts k')"
  by (induction opts) auto

lemma keys_dict_set: "set (map fst (dict_set k v opts)) = insert k (set (map fst opts))"
proof (induction opts)
  case Nil
  then show ?case by simp
next
  case (Cons a opts)
  obtain k' v' where a: "a = (k', v')" by (cases a)
  show ?case
  proof (cases "k' = k")
    case True
    then show ?thesis by (simp add: a)
  next
    case False
    then show ?thesis using Cons.IH by (simp add: a insert_commute)
  qed
qed

lemma keys_dict_set_image: "fst ` set (dict_set k v opts) = insert k (fst ` set opts)"
  using keys_dict_set [of k v opts] by simp

lemma cfg_set_defaults [simp]: "defaults (cfg_set cfg sect k v) = defaults cfg"
  by (simp add: cfg_set_def)

lemma cfg_set_sections:
  "map_of (sections (cfg_set cfg sect k v)) s =
     (if s = sect then map_option (dict_set k v) (map_of (sections cfg) s)
      else map_of (sections cfg) s)"
  by (simp add: cfg_set_def map_of_in_section)

lemma cfg_get_set:
  assumes "map_of (sections cfg) sect \<noteq> None"
  shows "cfg_get (cfg_set cfg sect k v) sect k' = (if k' = k then Some v else cfg_get cfg sect k')"
  using assms by (auto simp: cfg_get_def cfg_set_sections map_of_dict_set split: option.splits)

lemma cfg_keys_set:
  assumes "map_of (sections cfg) sect \<noteq> None"
  shows "set (cfg_keys (cfg_set cfg sect k v) sect) = insert k (set (cfg_keys cfg sect))"
proof -
  obtain opts where o: "map_of (sections cfg) sect = Some opts" using assms by auto
  have "map_of (sections (cfg_set cfg sect k v)) sect = Some (dict_set k v opts)"
    by (simp add: cfg_set_sections o)
  then show ?thesis
    by (auto simp: cfg_keys_def o keys_dict_set_image)
qed

lemma cfg_get_Some_section: "cfg_get cfg sect k = Some v \<Longrightarrow> map_of (sections cfg) sect \<noteq> None"
  by (auto simp: cfg_get_def split: option.splits)

lemma same_elsewhere_refl [simp]: "same_elsewhere sect cfg cfg"
  by (simp add: same_elsewhere_def)

lemma same_elsewhere_trans:
  "same_elsewhere sect a b \<Longrightarrow> same_elsewhere sect b c \<Longrightarrow> same_elsewhere sect a c"
  by (simp add: same_elsewhere_def)

lemma same_elsewhere_set: "same_elsewhere sect cfg (cfg_set cfg sect k v)"
  by (auto simp: same_elsewhere_def cfg_set_sections)

lemma clean_keys_spec:
  assumes "clean_keys ex sect ks (cfg, ch, d, m) = Inr (cfg', ch', d', m')"
  shows "same_elsewhere sect cfg cfg' \<and>
     (\<forall>k\<in>set ks. \<exists>v. cfg_get cfg' sect k = Some v \<and> clean_val ex v) \<and>
     (\<forall>k. k \<notin> set ks \<longrightarrow> cfg_get cfg' sect k = cfg_get cfg sect k) \<and>
     set (cfg_keys cfg' sect) \<subseteq> set (cfg_keys cfg sect) \<union> set ks"
  using assms
proof (induction ks arbitrary: cfg ch d m)
  case Nil
  then show ?case by simp
next
  case (Cons k ks)
  obtain val where val: "cfg_get cfg sect k = Some val"
    using Cons.prems by (cases "cfg_get cfg sect k") auto
  obtain nv d1 m1 where cv: "clean_value ex val (d, m) = (nv, d1, m1)"
    by (cases "clean_value ex val (d, m)")
  have cl: "clean_val ex nv" using cv by (rule clean_value_clean)
  have sec: "map_of (sections cfg) sect \<noteq> None" using val by (rule cfg_get_Some_section)
  define cfg2 where "cfg2 = (if nv \<noteq> val then cfg_set cfg sect k nv else cfg)"
  define ch2 where "ch2 = (if nv \<noteq> val then True else ch)"
  have rest: "clean_keys ex sect ks (cfg2, ch2, d1, m1) = Inr (cfg', ch', d', m')"
    using Cons.prems val cv by (cases "nv = val") (simp_all add: cfg2_def ch2_def)
  note ih = Cons.IH [OF rest]
  have g2: "cfg_get cfg2 sect k' = (if k' = k then Some nv else cfg_get cfg sect k')" for k'
    using val sec by (auto simp: cfg2_def cfg_get_set)
  have k2: "set (cfg_keys cfg2 sect) \<subseteq> insert k (set (cfg_keys cfg sect))"
    using sec by (auto simp: cfg2_def cfg_keys_set)
  have s2: "same_elsewhere sect cfg cfg2"
    by (simp add: cfg2_def same_elsewhere_set)
  have a: "same_elsewhere sect cfg cfg'" using s2 ih same_elsewhere_trans by blast
  have b: "\<exists>v. cfg_get cfg' sect k' = Some v \<and> clean_val ex v" if "k' \<in> set (k # ks)" for k'
  proof (cases "k' \<in> set ks")
    case True
    then show ?thesis using ih by blast
  next
    case False
    then have "k' = k" using that by simp
    moreover have "cfg_get cfg' sect k' = cfg_get cfg2 sect k'" using ih False by blast
    ultimately show ?thesis using g2 cl by simp
  qed
  have c: "cfg_get cfg' sect k' = cfg_get cfg sect k'" if "k' \<notin> set (k # ks)" for k'
    using that ih g2 by auto
  have e: "set (cfg_keys cfg' sect) \<subseteq> set (cfg_keys cfg sect) \<union> set (k # ks)"
    using ih k2 by auto
  show ?case using a b c e by blast
qed

lemma clean_keys_sect_clean:
  assumes "clean_keys ex sect (cfg_keys cfg sect) (cfg, ch, d, m) = Inr (cfg', ch', d', m')"
  shows "sect_clean ex cfg' sect" and "same_elsewhere sect cfg cfg'"
  using clean_keys_spec [OF assms] unfolding sect_clean_def by blast+

lemma same_elsewhere_keys:
  "same_elsewhere sect cfg cfg' \<Longrightarrow> s \<noteq> sect \<Longrightarrow> cfg_keys cfg' s = cfg_keys cfg s"
  by (auto simp: same_elsewhere_def cfg_keys_def split: option.splits)

lemma same_elsewhere_get:
  "same_elsewhere sect cfg cfg' \<Longrightarrow> s \<noteq> sect \<Longrightarrow> cfg_get cfg' s k = cfg_get cfg s k"
  by (auto simp: same_elsewhere_def cfg_get_def split: option.splits)

lemma same_elsewhere_sect_clean:
  "same_elsewhere sect cfg cfg' \<Longrightarrow> s \<noteq> sect \<Longrightarrow> sect_clean ex cfg' s = sect_clean ex cfg s"
  by (simp add: sect_clean_def same_elsewhere_keys same_elsewhere_get)

lemma sect_clean_absent:
  "sect \<notin> set (map fst (sections cfg)) \<Longrightarrow> sect_clean ex cfg sect"
  by (simp add: sect_clean_def cfg_keys_def map_of_eq_None_iff [THEN iffD2])

lemma clean_sections_two:
  assumes ne: "s1 \<noteq> s2"
    and run: "clean_sections ex [s1, s2] (cfg, ch, d, m) = Inr (cfg', ch', d', m')"
  shows "sect_clean ex cfg' s1 \<and> sect_clean ex cfg' s2"
proof -
  obtain cfg1 ch1 d1 m1 where
    one: "clean_sections ex [s1] (cfg, ch, d, m) = Inr (cfg1, ch1, d1, m1)"
    and c1: "sect_clean ex cfg1 s1"
    and two: "clean_sections ex [s2] (cfg1, ch1, d1, m1) = Inr (cfg', ch', d', m')"
  proof (cases "s1 \<in> set (map fst (sections cfg))")
    case False
    then have "clean_sections ex [s1] (cfg, ch, d, m) = Inr (cfg, ch, d, m)"
      and "sect_clean ex cfg s1"
      and "clean_sections ex [s2] (cfg, ch, d, m) = Inr (cfg', ch', d', m')"
      using run by (simp_all add: sect_clean_absent)
    then show ?thesis using that by blast
  next
    case True
    then obtain st where k: "clean_keys ex s1 (cfg_keys cfg s1) (cfg, ch, d, m) = Inr st"
      using run by (cases "clean_keys ex s1 (cfg_keys cfg s1) (cfg, ch, d, m)") simp_all
    obtain cfg1 ch1 d1 m1 where st: "st = (cfg1, ch1, d1, m1)" by (cases st)
    have "clean_sections ex [s1] (cfg, ch, d, m) = Inr (cfg1, ch1, d1, m1)"
      using True k st by simp
    moreover have "sect_clean ex cfg1 s1"
      using clean_keys_sect_clean(1) k st by blast
    moreover have "clean_sections ex [s2] (cfg1, ch1, d1, m1) = Inr (cfg', ch', d', m')"
      using run True k st by simp
    ultimately show ?thesis using that by blast
  qed
  show ?thesis
  proof (cases "s2 \<in> set (map fst (sections cfg1))")
    case False
    then have "cfg' = cfg1" using two by simp
    then show ?thesis using c1 False by (simp add: sect_clean_absent)
  next
    case True
    then obtain st where k: "clean_keys ex s2 (cfg_keys cfg1 s2) (cfg1, ch1, d1, m1) = Inr st"
      using two by (cases "clean_keys ex s2 (cfg_keys cfg1 s2) (cfg1, ch1, d1, m1)") simp_all
    have st: "st = (cfg', ch', d', m')" using two True k by simp
    have "sect_clean ex cfg' s2" and se: "same_elsewhere s2 cfg1 cfg'"
      using clean_keys_sect_clean k st by blast+
    moreover have "sect_clean ex cfg' s1"
      using same_elsewhere_sect_clean [OF se ne] c1 by simp
    ultimately show ?thesis by simp
  qed
qed

lemma clean_keys_fixed:
  assumes "\<forall>k\<in>set ks. \<exists>v. cfg_get cfg sect k = Some v \<and> clean_val ex v"
  shows "clean_keys ex sect ks (cfg, ch, d, m) = Inr (cfg, ch, d, m)"
  using assms
proof (induction ks)
  case Nil
  then show ?case by simp
next
  case (Cons k ks)
  then obtain v where v: "cfg_get cfg sect k = Some v" and c: "clean_val ex v" by auto
  have "clean_value ex v (d, m) = (v, d, m)" using c by (simp add: clean_val_def)
  then show ?case using v Cons by simp
qed

lemma clean_sections_fixed:
  assumes "\<forall>s\<in>set sects. sect_clean ex cfg s"
  shows "clean_sections ex sects (cfg, ch, d, m) = Inr (cfg, ch, d, m)"
  using assms
proof (induction sects)
  case Nil
  then show ?case by simp
next
  case (Cons s sects)
  have "clean_keys ex s (cfg_keys cfg s) (cfg, ch, d, m) = Inr (cfg, ch, d, m)"
    using Cons.prems by (intro clean_keys_fixed) (simp add: sect_clean_def)
  then show ?case using Cons by simp
qed

text \<open>A pass that changes nothing returns the configuration it read.\<close>

lemma clean_keys_unchanged:
  assumes "clean_keys ex sect ks (cfg, ch, d, m) = Inr (cfg', False, d', m')"
  shows "cfg' = cfg \<and> \<not> ch"
  using assms
proof (induction ks arbitrary: cfg ch d m)
  case Nil
  then show ?case by simp
next
  case (Cons k ks)
  obtain val where val: "cfg_get cfg sect k = Some val"
    using Cons.prems by (cases "cfg_get cfg sect k") auto
  obtain nv d1 m1 where cv: "clean_value ex val (d, m) = (nv, d1, m1)"
    by (cases "clean_value ex val (d, m)")
  show ?case
  proof (cases "nv = val")
    case True
    then have "clean_keys ex sect ks (cfg, ch, d1, m1) = Inr (cfg', False, d', m')"
      using Cons.prems val cv by simp
    then show ?thesis using Cons.IH by blast
  next
    case False
    then have "clean_keys ex sect ks (cfg_set cfg sect k nv, True, d1, m1) = Inr (cfg', False, d', m')"
      using Cons.prems val cv by simp
    then show ?thesis using Cons.IH by blast
  qed
qed

lemma clean_sections_unchanged:
  assumes "clean_sections ex sects (cfg, ch, d, m) = Inr (cfg', False, d', m')"
  shows "cfg' = cfg \<and> \<not> ch"
  using assms
proof (induction sects arbitrary: cfg ch d m)
  case Nil
  then show ?case by simp
next
  case (Cons s sects)
  show ?case
  proof (cases "s \<in> set (map fst (sections cfg))")
    case False
    then have "clean_sections ex sects (cfg, ch, d, m) = Inr (cfg', False, d', m')"
      using Cons.prems by simp
    then show ?thesis using Cons.IH by blast
  next
    case True
    then obtain st where k: "clean_keys ex s (cfg_keys cfg s) (cfg, ch, d, m) = Inr st"
      using Cons.prems by (cases "clean_keys ex s (cfg_keys cfg s) (cfg, ch, d, m)") simp_all
    obtain cfg1 ch1 d1 m1 where st: "st = (cfg1, ch1, d1, m1)" by (cases st)
    have "clean_sections ex sects (cfg1, ch1, d1, m1) = Inr (cfg', False, d', m')"
      using Cons.prems True k st by simp
    then have e: "cfg' = cfg1 \<and> \<not> ch1" using Cons.IH by blast
    then have "clean_keys ex s (cfg_keys cfg s) (cfg, ch, d, m) = Inr (cfg1, False, d1, m1)"
      using k st by simp
    then have "cfg1 = cfg \<and> \<not> ch" by (rule clean_keys_unchanged)
    then show ?thesis using e by simp
  qed
qed

text \<open>One pass over a file that can be read, with and without a rewrite.\<close>

lemma clean_mimeapps_rewrites:
  assumes "read_text p w = Inr content" and "cfg_read content = Inr cfg"
    and "clean_sections ex [''Added Associations'', ''Default Applications''] (cfg, False, 0, 0) =
           Inr (cfg', True, d, m)"
    and "write_error w p = None"
  shows "clean_mimeapps p ex w = (Inr (d, m), put_file p (cfg_write cfg') w)"
proof -
  have "files w (resolve w p) \<noteq> None"
    using assms(1) by (auto simp: read_text_def split: option.splits)
  then have "path_exists w p" by (simp add: path_exists_def)
  then show ?thesis
    unfolding clean_mimeapps_def using assms
    by (simp add: write_text_def del: clean_sections.simps)
qed

lemma clean_mimeapps_keeps:
  assumes "read_text p w = Inr content" and "cfg_read content = Inr cfg"
    and "clean_sections ex [''Added Associations'', ''Default Applications''] (cfg, False, 0, 0) =
           Inr (cfg', False, d, m)"
  shows "clean_mimeapps p ex w = (Inr (d, m), w)"
proof -
  have "files w (resolve w p) \<noteq> None"
    using assms(1) by (auto simp: read_text_def split: option.splits)
  then have "path_exists w p" by (simp add: path_exists_def)
  then show ?thesis
    unfolding clean_mimeapps_def using assms
    by (simp del: clean_sections.simps)
qed

lemma clean_sections_again:
  assumes "clean_sections ex [''Added Associations'', ''Default Applications''] (cfg, ch, d, m) =
     Inr (cfg', ch', d', m')"
  shows "clean_sections ex [''Added Associations'', ''Default Applications''] (cfg', False, 0, 0) =
     Inr (cfg', False, 0, 0)"
proof -
  have "sect_clean ex cfg' ''Added Associations'' \<and> sect_clean ex cfg' ''Default Applications''"
    using assms by (intro clean_sections_two [where cfg = cfg and ch = ch and d = d and m = m
          and ch' = ch' and d' = d' and m' = m']) simp_all
  then show ?thesis by (intro clean_sections_fixed) simp
qed

lemma read_text_put_file:
  assumes "read_text p w = Inr content"
  shows "read_text p (put_file p text w) = Inr text"
  using assms by (auto simp: read_text_def put_file_def resolve_def split: option.splits)

lemma assoc_world_read:
  "read_text ''/home/u/.config/mimeapps.list'' assoc_world =
     Inr ''[Added Associations]\<newline>text/plain=a.desktop;missing.desktop;a.desktop;\<newline>''"
  by (simp add: read_text_def assoc_world_def plain_world_def resolve_def)

lemma blank_world_read:
  "read_text ''/home/u/.config/mimeapps.list'' blank_world =
     Inr ''[Added Associations]\<newline>text/plain=gone.desktop; b.desktop;\<newline>''"
  by (simp add: read_text_def blank_world_def plain_world_def resolve_def)

lemma blank_first_read:
  "cfg_read ''[Added Associations]\<newline>text/plain=gone.desktop; b.desktop;\<newline>'' =
     Inr \<lparr>defaults = [],
          sections = [(''Added Associations'', [(''text/plain'', ''gone.desktop; b.desktop;'')])]\<rparr>"
  by code_simp

lemma blank_first_clean:
  "clean_sections ['' b.desktop''] [''Added Associations'', ''Default Applications'']
      (\<lparr>defaults = [],
          sections = [(''Added Associations'', [(''text/plain'', ''gone.desktop; b.desktop;'')])]\<rparr>,
       False, 0, 0) =
     Inr (\<lparr>defaults = [],
          sections = [(''Added Associations'', [(''text/plain'', '' b.desktop;'')])]\<rparr>,
          True, 0, 1)"
  by code_simp

lemma blank_first_write:
  "cfg_write \<lparr>defaults = [],
          sections = [(''Added Associations'', [(''text/plain'', '' b.desktop;'')])]\<rparr> =
     ''[Added Associations]\<newline>text/plain =  b.desktop;\<newline>\<newline>''"
  by code_simp

lemma blank_second_read:
  "cfg_read ''[Added Associations]\<newline>text/plain =  b.desktop;\<newline>\<newline>'' =
     Inr \<lparr>defaults = [],
          sections = [(''Added Associations'', [(''text/plain'', ''b.desktop;'')])]\<rparr>"
  by code_simp

lemma blank_second_clean:
  "clean_sections ['' b.desktop''] [''Added Associations'', ''Default Applications'']
      (\<lparr>defaults = [],
          sections = [(''Added Associations'', [(''text/plain'', ''b.desktop;'')])]\<rparr>,
       False, 0, 0) =
     Inr (\<lparr>defaults = [],
          sections = [(''Added Associations'', [(''text/plain'', [])])]\<rparr>,
          True, 0, 1)"
  by code_simp

lemma blank_second_write:
  "cfg_write \<lparr>defaults = [],
          sections = [(''Added Associations'', [(''text/plain'', [])])]\<rparr> =
     ''[Added Associations]\<newline>text/plain = \<newline>\<newline>''"
  by code_simp

lemma blank_first_pass:
  "clean_mimeapps ''/home/u/.config/mimeapps.list'' ['' b.desktop''] blank_world =
     (Inr (0, 1), put_file ''/home/u/.config/mimeapps.list''
        ''[Added Associations]\<newline>text/plain =  b.desktop;\<newline>\<newline>'' blank_world)"
proof -
  have w: "write_error blank_world ''/home/u/.config/mimeapps.list'' = None"
    by (simp add: blank_world_def plain_world_def)
  show ?thesis
    using clean_mimeapps_rewrites [OF blank_world_read blank_first_read blank_first_clean w]
    by (simp only: blank_first_write)
qed

lemma blank_second_pass:
  "clean_mimeapps ''/home/u/.config/mimeapps.list'' ['' b.desktop'']
     (put_file ''/home/u/.config/mimeapps.list''
        ''[Added Associations]\<newline>text/plain =  b.desktop;\<newline>\<newline>'' blank_world) =
     (Inr (0, 1), put_file ''/home/u/.config/mimeapps.list''
        ''[Added Associations]\<newline>text/plain = \<newline>\<newline>''
        (put_file ''/home/u/.config/mimeapps.list''
        ''[Added Associations]\<newline>text/plain =  b.desktop;\<newline>\<newline>'' blank_world))"
proof -
  have w: "write_error (put_file ''/home/u/.config/mimeapps.list''
        ''[Added Associations]\<newline>text/plain =  b.desktop;\<newline>\<newline>'' blank_world)
       ''/home/u/.config/mimeapps.list'' = None"
    by (simp add: put_file_def blank_world_def plain_world_def)
  show ?thesis
    using clean_mimeapps_rewrites [OF read_text_put_file [OF blank_world_read]
        blank_second_read blank_second_clean w]
    by (simp only: blank_second_write)
qed

text \<open>
  The statement "a second run returns \<open>(0, 0)\<close> and rewrites nothing, for every
  association file and every set of descriptor names" fails. The parser drops the white
  space around a value. With a descriptor whose name is a blank followed by
  \<open>b.desktop\<close> and the line \<open>text/plain=gone.desktop; b.desktop;\<close>, the first pass
  drops \<open>gone.desktop\<close> and writes a value that begins with the blank; the second pass
  reads it without the blank, as \<open>b.desktop;\<close>, which names no descriptor, counts one
  more missing reference and
  rewrites the file with an empty value.
\<close>

theorem leading_blank_counterexample:
  "fst (clean_mimeapps ''/home/u/.config/mimeapps.list'' ['' b.desktop''] blank_world) = Inr (0, 1) \<and>
   files (snd (clean_mimeapps ''/home/u/.config/mimeapps.list'' ['' b.desktop''] blank_world))
     ''/home/u/.config/mimeapps.list'' =
     Some ''[Added Associations]\<newline>text/plain =  b.desktop;\<newline>\<newline>'' \<and>
   fst (clean_mimeapps ''/home/u/.config/mimeapps.list'' ['' b.desktop'']
     (snd (clean_mimeapps ''/home/u/.config/mimeapps.list'' ['' b.desktop''] blank_world))) =
     Inr (0, 1) \<and>
   files (snd (clean_mimeapps ''/home/u/.config/mimeapps.list'' ['' b.desktop'']
     (snd (clean_mimeapps ''/home/u/.config/mimeapps.list'' ['' b.desktop''] blank_world))))
     ''/home/u/.config/mimeapps.list'' =
     Some ''[Added Associations]\<newline>text/plain = \<newline>\<newline>''"
  unfolding blank_first_pass snd_conv fst_conv blank_second_pass
  by (simp add: put_file_def resolve_def blank_world_def plain_world_def)

text \<open>
  Claim C7, amended. Whenever the first run of \<open>clean_mimeapps\<close> returns, and the text it
  has written, if it has written one, is read back by the parser as the configuration
  that was written, a second run with the same descriptor names returns \<open>(0, 0)\<close> and
  leaves the machine, the file with it, exactly as the first run left it.
\<close>

theorem clean_mimeapps_idempotent:
  assumes first: "clean_mimeapps p existing w = (Inr counts, w1)"
    and reread: "\<And>content cfg cfg' d m.
        read_text p w = Inr content \<Longrightarrow> cfg_read content = Inr cfg \<Longrightarrow>
        clean_sections existing [''Added Associations'', ''Default Applications'']
          (cfg, False, 0, 0) = Inr (cfg', True, d, m) \<Longrightarrow>
        cfg_read (cfg_write cfg') = Inr cfg'"
  shows "clean_mimeapps p existing w1 = (Inr (0, 0), w1)"
proof (cases "path_exists w p")
  case False
  then have "w1 = w" using first by (simp add: clean_mimeapps_def)
  then show ?thesis using False by (simp add: clean_mimeapps_def)
next
  case True
  obtain content where rd: "read_text p w = Inr content"
    using first True by (cases "read_text p w") (simp_all add: clean_mimeapps_def)
  obtain cfg where cfg: "cfg_read content = Inr cfg"
    using first True rd by (cases "cfg_read content") (simp_all add: clean_mimeapps_def)
  obtain st where st: "clean_sections existing [''Added Associations'', ''Default Applications'']
          (cfg, False, 0, 0) = Inr st"
    using first True rd cfg
    by (cases "clean_sections existing [''Added Associations'', ''Default Applications'']
          (cfg, False, 0, 0)") (simp_all add: clean_mimeapps_def del: clean_sections.simps)
  obtain cfg' changed d m where st': "st = (cfg', changed, d, m)" by (cases st)
  note run = st [unfolded st']
  have again: "clean_sections existing [''Added Associations'', ''Default Applications'']
      (cfg', False, 0, 0) = Inr (cfg', False, 0, 0)"
    using run by (rule clean_sections_again)
  show ?thesis
  proof (cases changed)
    case False
    have same: "w1 = w"
      using first True rd cfg run False by (simp add: clean_mimeapps_def del: clean_sections.simps)
    have "clean_sections existing [''Added Associations'', ''Default Applications'']
        (cfg, False, 0, 0) = Inr (cfg', False, d, m)"
      using run False by simp
    then have "cfg' = cfg \<and> \<not> False" by (rule clean_sections_unchanged)
    then have "cfg' = cfg" by simp
    then show ?thesis
      using clean_mimeapps_keeps [OF rd cfg, of existing cfg 0 0] again same by simp
  next
    case True
    note ch = this
    have runT: "clean_sections existing [''Added Associations'', ''Default Applications'']
        (cfg, False, 0, 0) = Inr (cfg', True, d, m)"
      using run ch by simp
    have we: "write_error w p = None"
      using first \<open>path_exists w p\<close> rd cfg run ch
      by (cases "write_error w p")
         (simp_all add: clean_mimeapps_def write_text_def del: clean_sections.simps)
    have w1: "w1 = put_file p (cfg_write cfg') w"
      using first clean_mimeapps_rewrites [OF rd cfg runT we] by simp
    have rd1: "read_text p w1 = Inr (cfg_write cfg')"
      unfolding w1 using rd by (rule read_text_put_file)
    have cfg1: "cfg_read (cfg_write cfg') = Inr cfg'"
      using reread [OF rd cfg runT] .
    show ?thesis using clean_mimeapps_keeps [OF rd1 cfg1 again] .
  qed
qed

text \<open>The two passes on the association file of the example machine.\<close>

theorem clean_mimeapps_idempotent_witness:
  "clean_mimeapps ''/home/u/.config/mimeapps.list'' [''a.desktop''] assoc_world =
     (Inr (1, 1),
      put_file ''/home/u/.config/mimeapps.list''
        ''[Added Associations]\<newline>text/plain = a.desktop;\<newline>\<newline>'' assoc_world) \<and>
   clean_mimeapps ''/home/u/.config/mimeapps.list'' [''a.desktop'']
     (put_file ''/home/u/.config/mimeapps.list''
        ''[Added Associations]\<newline>text/plain = a.desktop;\<newline>\<newline>'' assoc_world) =
     (Inr (0, 0),
      put_file ''/home/u/.config/mimeapps.list''
        ''[Added Associations]\<newline>text/plain = a.desktop;\<newline>\<newline>'' assoc_world)"
proof -
  have a: "''a.desktop'' \<in> set [''a.desktop'']" and b: "''missing.desktop'' \<notin> set [''a.desktop'']"
    by simp_all
  have w: "write_error assoc_world ''/home/u/.config/mimeapps.list'' = None"
    by (simp add: assoc_world_def plain_world_def)
  have one: "clean_mimeapps ''/home/u/.config/mimeapps.list'' [''a.desktop''] assoc_world =
     (Inr (1, 1),
      put_file ''/home/u/.config/mimeapps.list''
        ''[Added Associations]\<newline>text/plain = a.desktop;\<newline>\<newline>'' assoc_world)"
    using clean_mimeapps_rewrites [OF assoc_world_read read_example
        clean_sections_example [OF a b] w]
    by (simp only: write_example)
  have rr: "cfg_read (cfg_write cfg') = Inr cfg'"
    if "read_text ''/home/u/.config/mimeapps.list'' assoc_world = Inr content"
      and "cfg_read content = Inr cfg"
      and "clean_sections [''a.desktop''] [''Added Associations'', ''Default Applications'']
          (cfg, False, 0, 0) = Inr (cfg', True, d, m)"
    for content cfg cfg' d m
  proof -
    have "content = ''[Added Associations]\<newline>text/plain=a.desktop;missing.desktop;a.desktop;\<newline>''"
      using that(1) by (simp add: assoc_world_read)
    then have "cfg = \<lparr>defaults = [],
          sections = [(''Added Associations'',
            [(''text/plain'', ''a.desktop;missing.desktop;a.desktop;'')])]\<rparr>"
      using that(2) by (simp add: read_example)
    then have "cfg' = \<lparr>defaults = [],
          sections = [(''Added Associations'', [(''text/plain'', ''a.desktop;'')])]\<rparr>"
      using that(3) by (simp add: clean_sections_example [OF a b] del: clean_sections.simps)
    then show ?thesis by (simp only: write_example) code_simp
  qed
  show ?thesis
    using clean_mimeapps_idempotent [OF one rr] one by simp
qed

end
